theory Spec2Isabelle
  imports Main "HOL-Library.Char_ord" "HOL-Library.List_Lexorder"
begin

section \<open>The ternary search tree map of \<^verbatim>\<open>src/tst_map.h\<close>\<close>

text \<open>
  The class template \<^verbatim>\<open>tst_map<T, Ch, Comp>\<close> is embedded at its default template
  arguments \<^verbatim>\<open>Ch = char\<close> and \<^verbatim>\<open>Comp = std::less<Ch>\<close>; the value type \<^verbatim>\<open>T\<close> is the
  type variable \<open>'v\<close>. The comparator is the order of \<^typ>\<open>char\<close> (by character
  code); the proofs use only that it is a strict total order, and the characters of the
  examples are NUL and ASCII letters, which a signed and an unsigned \<^verbatim>\<open>char\<close> order alike.

  A \<^verbatim>\<open>tnode*\<close> is a value of the datatype below: \<open>Null\<close> is the null pointer, \<open>Node\<close> a
  pointer to a node with the five fields of \<^verbatim>\<open>struct tnode\<close> in their order of
  declaration. Every node is owned by exactly one link, so a subtree is a value.
  \<^verbatim>\<open>T* pdata\<close> is an optional payload.
\<close>

datatype 'v tnode =
  Null
  | Node (splitchar: char) (lokid: "'v tnode") (hikid: "'v tnode") (eqkid: "'v tnode")
      (pdata: "'v option")

text \<open>The data members \<^verbatim>\<open>root_\<close> and \<^verbatim>\<open>size_\<close> (\<^verbatim>\<open>comp_\<close> has no state).\<close>

record 'v tst_map =
  root_m :: "'v tnode"
  size_m :: nat

subsection \<open>Keys as C strings\<close>

text \<open>
  Every operation reads its key through \<^verbatim>\<open>str.c_str()\<close> and stops at the first character
  that is \<^verbatim>\<open>0\<close>. \<open>c_str\<close> is the string the operation sees: the characters before the first
  NUL. On such a string \<^verbatim>\<open>*s == 0\<close> is \<open>s = []\<close>, \<^verbatim>\<open>*s\<close> is \<open>deref s\<close> (the terminator when
  \<open>s\<close> is exhausted) and \<^verbatim>\<open>s + 1\<close> is \<open>tl s\<close>.
\<close>

definition NUL :: char where
  "NUL = CHR 0x00"

definition c_str :: "string \<Rightarrow> string" where
  "c_str str = takeWhile (\<lambda>c. c \<noteq> NUL) str"

fun deref :: "string \<Rightarrow> char" where
  "deref [] = NUL"
| "deref (c # cs) = c"

abbreviation comp_m :: "char \<Rightarrow> char \<Rightarrow> bool" where
  "comp_m a b \<equiv> a < b"

subsection \<open>Construction and insertion\<close>

text \<open>\<^verbatim>\<open>tnode(Ch ch)\<close>: the character, three null links, no payload.\<close>

definition new_tnode :: "char \<Rightarrow> 'v tnode" where
  "new_tnode ch = Node ch Null Null Null None"

text \<open>The default constructor.\<close>

definition tst_map_new :: "'v tst_map" where
  "tst_map_new = \<lparr>root_m = Null, size_m = 0\<rparr>"

text \<open>
  \<^verbatim>\<open>__insert(p, s, t, pos)\<close>. The function returns the new link; \<^verbatim>\<open>size_\<close> and the
  reference parameter \<^verbatim>\<open>pos\<close> are passed in and returned. A handle \<^verbatim>\<open>T*\<close> is modelled by
  the payload it points to (\<open>None\<close> for the null handle). The second equation is
  \<^verbatim>\<open>if (p == 0) p = new tnode(*s)\<close>, after which the code goes on with the new node.
\<close>

function insert_aux ::
  "'v tnode \<Rightarrow> string \<Rightarrow> 'v \<Rightarrow> nat \<Rightarrow> 'v option \<Rightarrow> 'v tnode \<times> nat \<times> 'v option" where
  "insert_aux p [] t sz pos = (p, sz, pos)"
| "insert_aux Null (c # cs) t sz pos = insert_aux (new_tnode c) (c # cs) t sz pos"
| "insert_aux (Node ch lo hi eq pd) (c # cs) t sz pos =
     (if comp_m c ch then
        (case insert_aux lo (c # cs) t sz pos of
           (lo', r) \<Rightarrow> (Node ch lo' hi eq pd, r))
      else if \<not> comp_m c ch \<and> \<not> comp_m ch c then
        (if cs = [] then
           (if pd \<noteq> None then (Node ch lo hi eq (Some t), sz, Some t)
            else (Node ch lo hi eq (Some t), sz + 1, Some t))
         else
           (case insert_aux eq cs t sz pos of
              (eq', r) \<Rightarrow> (Node ch lo hi eq' pd, r)))
      else
        (case insert_aux hi (c # cs) t sz pos of
           (hi', r) \<Rightarrow> (Node ch lo hi' eq pd, r)))"
  by pat_completeness auto
termination
  by (relation "measures [\<lambda>(p, s, t, sz, pos). length s,
        \<lambda>(p, s, t, sz, pos).
          (case p of Null \<Rightarrow> 1 | Node ch _ _ _ _ \<Rightarrow> if ch = deref s then 0 else 2 + size p)]")
     (auto simp: new_tnode_def split: tnode.splits)

text \<open>\<^verbatim>\<open>insert(str, val)\<close>: the container afterwards and the handle returned.\<close>

definition insert_tst :: "'v tst_map \<Rightarrow> string \<Rightarrow> 'v \<Rightarrow> 'v tst_map \<times> 'v option" where
  "insert_tst m str val =
     (case insert_aux (root_m m) (c_str str) val (size_m m) None of
        (p, sz, pos) \<Rightarrow> (\<lparr>root_m = p, size_m = sz\<rparr>, pos))"

text \<open>The range constructor and the range \<^verbatim>\<open>insert(beg, end)\<close>: one insert per element.\<close>

fun inserts :: "(string \<times> 'v) list \<Rightarrow> 'v tst_map \<Rightarrow> 'v tst_map" where
  "inserts [] m = m"
| "inserts ((k, v) # kvs) m = inserts kvs (fst (insert_tst m k v))"

subsection \<open>Lookup and removal\<close>

text \<open>
  The loop of \<^verbatim>\<open>find\<close>. \<^verbatim>\<open>*(++s) == 0\<close> is \<open>tl s = []\<close>. When the key is exhausted and a
  node's character is NUL the code would read past the terminator; the model returns the
  payload there, and no node of a container has that character (\<open>tst_ok\<close> below).
\<close>

fun find_loop :: "'v tnode \<Rightarrow> string \<Rightarrow> 'v option" where
  "find_loop Null s = None"
| "find_loop (Node ch lo hi eq pd) s =
     (if comp_m (deref s) ch then find_loop lo s
      else if \<not> comp_m (deref s) ch \<and> \<not> comp_m ch (deref s) then
        (if tl s = [] then pd else find_loop eq (tl s))
      else find_loop hi s)"

definition find_tst :: "'v tst_map \<Rightarrow> string \<Rightarrow> 'v option" where
  "find_tst m str = find_loop (root_m m) (c_str str)"

text \<open>
  The loop of \<^verbatim>\<open>remove\<close>: the tree with the payload of the node reached deleted, the new
  \<^verbatim>\<open>size_\<close> and the result. Unlike \<^verbatim>\<open>find\<close>, a node reached at the end of the key that
  has no payload does not end the loop: it goes on into \<^verbatim>\<open>eqkid\<close> with the exhausted key.
  \<^verbatim>\<open>--size_\<close> is on \<^verbatim>\<open>size_t\<close>; it is reached with a payload present, where the counter of
  a container is positive (\<open>invar\<close> below).
\<close>

fun remove_loop :: "'v tnode \<Rightarrow> string \<Rightarrow> nat \<Rightarrow> 'v tnode \<times> nat \<times> bool" where
  "remove_loop Null s sz = (Null, sz, False)"
| "remove_loop (Node ch lo hi eq pd) s sz =
     (if comp_m (deref s) ch then
        (case remove_loop lo s sz of (lo', r) \<Rightarrow> (Node ch lo' hi eq pd, r))
      else if \<not> comp_m (deref s) ch \<and> \<not> comp_m ch (deref s) then
        (if tl s = [] \<and> pd \<noteq> None then (Node ch lo hi eq None, sz - 1, True)
         else
           (case remove_loop eq (tl s) sz of (eq', r) \<Rightarrow> (Node ch lo hi eq' pd, r)))
      else
        (case remove_loop hi s sz of (hi', r) \<Rightarrow> (Node ch lo hi' eq pd, r)))"

definition remove :: "'v tst_map \<Rightarrow> string \<Rightarrow> 'v tst_map \<times> bool" where
  "remove m str =
     (case remove_loop (root_m m) (c_str str) (size_m m) of
        (p, sz, b) \<Rightarrow> (\<lparr>root_m = p, size_m = sz\<rparr>, b))"

subsection \<open>Traversal\<close>

text \<open>
  \<^verbatim>\<open>__travel(p, cur_str, f)\<close>. The visitor is a function on its own state \<open>'s\<close>. Each
  \<^verbatim>\<open>push_back\<close> on \<^verbatim>\<open>cur_str\<close> is undone by the \<^verbatim>\<open>erase\<close> that follows the call, so
  \<^verbatim>\<open>cur_str\<close> is passed by value.
\<close>

fun travel :: "'v tnode \<Rightarrow> string \<Rightarrow> (string \<Rightarrow> 'v \<Rightarrow> 's \<Rightarrow> 's) \<Rightarrow> 's \<Rightarrow> 's" where
  "travel Null cur_str f st = st"
| "travel (Node ch lo hi eq pd) cur_str f st =
     (let st1 = travel lo cur_str f st;
          st2 = travel eq (cur_str @ [ch]) f st1;
          st3 = travel hi cur_str f st2
      in (case pd of
            Some v \<Rightarrow> f (cur_str @ [ch]) v st3
          | None \<Rightarrow> st3))"

text \<open>
  The output container \<^verbatim>\<open>Seq\<close> is a list of pairs; \<^verbatim>\<open>c.clear()\<close> and the functor
  \<^verbatim>\<open>__push_back\<close>.
\<close>

definition clear_seq :: "(string \<times> 'v) list \<Rightarrow> (string \<times> 'v) list" where
  "clear_seq c = []"

definition push_back :: "string \<Rightarrow> 'v \<Rightarrow> (string \<times> 'v) list \<Rightarrow> (string \<times> 'v) list" where
  "push_back str t seq = seq @ [(str, t)]"

definition foreach :: "'v tst_map \<Rightarrow> (string \<Rightarrow> 'v \<Rightarrow> 's \<Rightarrow> 's) \<Rightarrow> 's \<Rightarrow> 's" where
  "foreach m f st = travel (root_m m) [] f st"

definition sequence :: "'v tst_map \<Rightarrow> (string \<times> 'v) list \<Rightarrow> (string \<times> 'v) list" where
  "sequence m c = travel (root_m m) [] push_back (clear_seq c)"

text \<open>The functor \<^verbatim>\<open>__insert_helper\<close> and the copy constructor.\<close>

definition insert_helper :: "string \<Rightarrow> 'v \<Rightarrow> 'v tst_map \<Rightarrow> 'v tst_map" where
  "insert_helper str t m = fst (insert_tst m str t)"

definition tst_map_copy :: "'v tst_map \<Rightarrow> 'v tst_map" where
  "tst_map_copy st = foreach st insert_helper tst_map_new"

subsection \<open>Partial-match search\<close>

text \<open>\<^verbatim>\<open>__pmsearch(p, s, cur_str, c)\<close>, with the output container passed in and returned.\<close>

fun pmsearch_aux ::
  "'v tnode \<Rightarrow> string \<Rightarrow> string \<Rightarrow> (string \<times> 'v) list \<Rightarrow> (string \<times> 'v) list" where
  "pmsearch_aux p [] cur_str c = c"
| "pmsearch_aux Null (a # as) cur_str c = c"
| "pmsearch_aux (Node ch lo hi eq pd) (a # as) cur_str c =
     (let c1 = (if a = CHR ''.'' \<or> comp_m a ch
                then pmsearch_aux lo (a # as) cur_str c else c);
          c2 = (if a = CHR ''.'' \<or> (\<not> comp_m a ch \<and> \<not> comp_m ch a) then
                  (if as = [] \<and> pd \<noteq> None then c1 @ [(cur_str @ [ch], the pd)]
                   else if as \<noteq> [] then pmsearch_aux eq as (cur_str @ [ch]) c1
                   else c1)
                else c1)
      in (if a = CHR ''.'' \<or> comp_m ch a
          then pmsearch_aux hi (a # as) cur_str c2 else c2))"

definition pmsearch ::
  "'v tst_map \<Rightarrow> string \<Rightarrow> (string \<times> 'v) list \<Rightarrow> (string \<times> 'v) list" where
  "pmsearch m str c = pmsearch_aux (root_m m) (c_str str) [] (clear_seq c)"

subsection \<open>Near-neighbour search\<close>

text \<open>\<^verbatim>\<open>__strlen\<close> and \<^verbatim>\<open>__near_search(p, s, d, cur_str, seq)\<close>; \<^verbatim>\<open>*s ? s+1 : s\<close> is \<open>s'\<close>.\<close>

fun strlen :: "string \<Rightarrow> int" where
  "strlen [] = 0"
| "strlen (c # cs) = 1 + strlen cs"

fun near_search ::
  "'v tnode \<Rightarrow> string \<Rightarrow> int \<Rightarrow> string \<Rightarrow> (string \<times> 'v) list \<Rightarrow> (string \<times> 'v) list" where
  "near_search Null s d cur_str seq = seq"
| "near_search (Node ch lo hi eq pd) s d cur_str seq =
     (if d < 0 then seq
      else
        (let seq1 = (if d > 0 \<or> comp_m (deref s) ch
                     then near_search lo s d cur_str seq else seq);
             s' = (if deref s \<noteq> NUL then tl s else s);
             d' = (if \<not> comp_m (deref s) ch \<and> \<not> comp_m ch (deref s) then d else d - 1);
             seq2 = near_search eq s' d' (cur_str @ [ch]) seq1;
             seq3 = (if d > 0 \<or> comp_m ch (deref s)
                     then near_search hi s d cur_str seq2 else seq2)
         in (case pd of
               Some v \<Rightarrow> if strlen s' \<le> d' then seq3 @ [(cur_str @ [ch], v)] else seq3
             | None \<Rightarrow> seq3)))"

definition nearsearch ::
  "'v tst_map \<Rightarrow> string \<Rightarrow> int \<Rightarrow> (string \<times> 'v) list \<Rightarrow> (string \<times> 'v) list" where
  "nearsearch m str d c = near_search (root_m m) (c_str str) d [] (clear_seq c)"

text \<open>
  The pairs that \<open>pmsearch_aux\<close> appends, in its order, with the keys read from the
  subtree's root.
\<close>

fun pm_entries :: "'v tnode \<Rightarrow> string \<Rightarrow> (string \<times> 'v) list" where
  "pm_entries p [] = []"
| "pm_entries Null (a # as) = []"
| "pm_entries (Node ch lo hi eq pd) (a # as) =
     (if a = CHR ''.'' \<or> comp_m a ch then pm_entries lo (a # as) else []) @
     (if a = CHR ''.'' \<or> (\<not> comp_m a ch \<and> \<not> comp_m ch a) then
        (if as = [] then (case pd of Some v \<Rightarrow> [([ch], v)] | None \<Rightarrow> [])
         else map (\<lambda>(k, v). (ch # k, v)) (pm_entries eq as))
      else []) @
     (if a = CHR ''.'' \<or> comp_m ch a then pm_entries hi (a # as) else [])"

text \<open>
  The pairs that \<open>near_search\<close> appends, in its order, with the keys read from the
  subtree's root.
\<close>

fun near_entries :: "'v tnode \<Rightarrow> string \<Rightarrow> int \<Rightarrow> (string \<times> 'v) list" where
  "near_entries Null s d = []"
| "near_entries (Node ch lo hi eq pd) s d =
     (if d < 0 then []
      else
        (let s' = (if deref s \<noteq> NUL then tl s else s);
             d' = (if \<not> comp_m (deref s) ch \<and> \<not> comp_m ch (deref s) then d else d - 1)
         in (if d > 0 \<or> comp_m (deref s) ch then near_entries lo s d else []) @
            map (\<lambda>(k, v). (ch # k, v)) (near_entries eq s' d') @
            (if d > 0 \<or> comp_m ch (deref s) then near_entries hi s d else []) @
            (case pd of
               Some v \<Rightarrow> if strlen s' \<le> d' then [([ch], v)] else []
             | None \<Rightarrow> [])))"

subsection \<open>The match rule of the specification\<close>

text \<open>
  A key matches a pattern when both have the same length and at every position the pattern
  has the wildcard \<^verbatim>\<open>'.'\<close> or the character of the key.
\<close>

fun pm_match :: "string \<Rightarrow> string \<Rightarrow> bool" where
  "pm_match [] [] = True"
| "pm_match (a # as) (x # xs) = ((a = CHR ''.'' \<or> a = x) \<and> pm_match as xs)"
| "pm_match [] (x # xs) = False"
| "pm_match (a # as) [] = False"

subsection \<open>The cost of the specification\<close>

text \<open>
  The specification's discrepancy count between a key and a pattern: one for every position
  where both have a character and the characters differ, and one for every character that
  the longer of the two has beyond the other.
\<close>

fun spec_cost :: "string \<Rightarrow> string \<Rightarrow> nat" where
  "spec_cost [] pat = length pat"
| "spec_cost (x # k) [] = length (x # k)"
| "spec_cost (x # k) (a # pat) = (if x = a then 0 else 1) + spec_cost k pat"

subsection \<open>The representation invariant\<close>

text \<open>
  The characters of one character position: the nodes linked to a node by \<^verbatim>\<open>lokid\<close> and
  \<^verbatim>\<open>hikid\<close> alone.
\<close>

fun level_chars :: "'v tnode \<Rightarrow> char set" where
  "level_chars Null = {}"
| "level_chars (Node ch lo hi eq pd) = insert ch (level_chars lo \<union> level_chars hi)"

text \<open>
  No node holds the terminator, and at every node the characters below \<^verbatim>\<open>lokid\<close> are
  smaller and those below \<^verbatim>\<open>hikid\<close> greater than the node's own.
\<close>

fun tst_ok :: "'v tnode \<Rightarrow> bool" where
  "tst_ok Null = True"
| "tst_ok (Node ch lo hi eq pd) =
     (ch \<noteq> NUL \<and> (\<forall>x \<in> level_chars lo. x < ch) \<and> (\<forall>x \<in> level_chars hi. ch < x) \<and>
      tst_ok lo \<and> tst_ok hi \<and> tst_ok eq)"

text \<open>The number of nodes with a payload.\<close>

fun payloads :: "'v tnode \<Rightarrow> nat" where
  "payloads Null = 0"
| "payloads (Node ch lo hi eq pd) =
     payloads lo + payloads eq + payloads hi + (if pd = None then 0 else 1)"

definition invar :: "'v tst_map \<Rightarrow> bool" where
  "invar m = (tst_ok (root_m m) \<and> size_m m = payloads (root_m m))"

text \<open>
  The states of a container: built by the default constructor, insertions and removals.
  All of them satisfy \<open>invar\<close> (lemma \<open>reachable_invar\<close>), and so does a copy
  (lemma \<open>copy_same\<close>).
\<close>

inductive reachable :: "'v tst_map \<Rightarrow> bool" where
  reach_new: "reachable tst_map_new"
| reach_insert: "reachable m \<Longrightarrow> reachable (fst (insert_tst m str val))"
| reach_remove: "reachable m \<Longrightarrow> reachable (fst (remove m str))"

text \<open>
  The pairs of a subtree in the order in which \<open>travel\<close> visits them, with the keys read
  from the subtree's root.
\<close>

fun entries :: "'v tnode \<Rightarrow> (string \<times> 'v) list" where
  "entries Null = []"
| "entries (Node ch lo hi eq pd) =
     entries lo @ map (\<lambda>(k, v). (ch # k, v)) (entries eq) @ entries hi @
     (case pd of Some v \<Rightarrow> [([ch], v)] | None \<Rightarrow> [])"

section \<open>The same code on a store\<close>

text \<open>
  Whether two containers share nodes cannot be read off trees that are values. For that
  question the nodes are put in a store: a \<^verbatim>\<open>tnode*\<close> is an optional address, a heap maps
  the allocated addresses to nodes, and the functions that follow the links are the source
  functions once more, reading and writing the heap. A function that follows links need
  not return on an arbitrary heap; its result is \<open>None\<close> when it does not, or when it reads
  or writes an address that holds no node.
\<close>

type_synonym addr = nat

record 'v hnode =
  h_splitchar :: char
  h_lokid :: "addr option"
  h_hikid :: "addr option"
  h_eqkid :: "addr option"
  h_pdata :: "'v option"

record 'v heap =
  cells :: "addr \<Rightarrow> 'v hnode option"
  next_free :: addr

text \<open>
  \<^verbatim>\<open>new tnode<T,Ch>(ch)\<close> takes the next free address; the code never looks at an address
  except to compare it with null.
\<close>

definition heap_new :: "'v heap" where
  "heap_new = \<lparr>cells = (\<lambda>a. None), next_free = 0\<rparr>"

definition h_new_tnode :: "'v heap \<Rightarrow> char \<Rightarrow> 'v heap \<times> addr" where
  "h_new_tnode h ch =
     (h\<lparr>cells := (cells h)(next_free h \<mapsto>
           \<lparr>h_splitchar = ch, h_lokid = None, h_hikid = None, h_eqkid = None, h_pdata = None\<rparr>),
        next_free := next_free h + 1\<rparr>,
      next_free h)"

text \<open>An assignment to a field of the node at \<open>a\<close>.\<close>

definition h_store :: "'v heap \<Rightarrow> addr \<Rightarrow> ('v hnode \<Rightarrow> 'v hnode) \<Rightarrow> 'v heap option" where
  "h_store h a f =
     (case cells h a of
        None \<Rightarrow> None
      | Some n \<Rightarrow> Some (h\<lparr>cells := (cells h)(a \<mapsto> f n)\<rparr>))"

text \<open>The loop of \<^verbatim>\<open>find\<close>.\<close>

partial_function (option) h_find_loop ::
  "'v heap \<Rightarrow> addr option \<Rightarrow> string \<Rightarrow> 'v option option" where
  "h_find_loop h p s =
     (case p of
        None \<Rightarrow> Some None
      | Some a \<Rightarrow>
          (case cells h a of
             None \<Rightarrow> None
           | Some n \<Rightarrow>
               if comp_m (deref s) (h_splitchar n) then h_find_loop h (h_lokid n) s
               else if \<not> comp_m (deref s) (h_splitchar n) \<and> \<not> comp_m (h_splitchar n) (deref s) then
                 (if tl s = [] then Some (h_pdata n) else h_find_loop h (h_eqkid n) (tl s))
               else h_find_loop h (h_hikid n) s))"

text \<open>
  \<^verbatim>\<open>__insert\<close>: the link returned by the recursive call is assigned to the field of the
  node, which is read from the heap as the call left it.
\<close>

partial_function (option) h_insert_aux ::
  "'v heap \<Rightarrow> addr option \<Rightarrow> string \<Rightarrow> 'v \<Rightarrow> nat \<Rightarrow> 'v option \<Rightarrow>
   ('v heap \<times> addr option \<times> nat \<times> 'v option) option" where
  "h_insert_aux h p s t sz pos =
     (if s = [] then Some (h, p, sz, pos)
      else
        (case (case p of None \<Rightarrow> h_new_tnode h (deref s) | Some a \<Rightarrow> (h, a)) of
           (h, a) \<Rightarrow>
             (case cells h a of
                None \<Rightarrow> None
              | Some n \<Rightarrow>
                  if comp_m (deref s) (h_splitchar n) then
                    Option.bind (h_insert_aux h (h_lokid n) s t sz pos)
                      (\<lambda>(h', l, r). Option.bind (h_store h' a (\<lambda>n. n\<lparr>h_lokid := l\<rparr>))
                         (\<lambda>h''. Some (h'', Some a, r)))
                  else if \<not> comp_m (deref s) (h_splitchar n) \<and> \<not> comp_m (h_splitchar n) (deref s) then
                    (if tl s = [] then
                       (if h_pdata n \<noteq> None then
                          Option.bind (h_store h a (\<lambda>n. n\<lparr>h_pdata := Some t\<rparr>))
                            (\<lambda>h'. Some (h', Some a, sz, Some t))
                        else
                          Option.bind (h_store h a (\<lambda>n. n\<lparr>h_pdata := Some t\<rparr>))
                            (\<lambda>h'. Some (h', Some a, sz + 1, Some t)))
                     else
                       Option.bind (h_insert_aux h (h_eqkid n) (tl s) t sz pos)
                         (\<lambda>(h', e, r). Option.bind (h_store h' a (\<lambda>n. n\<lparr>h_eqkid := e\<rparr>))
                            (\<lambda>h''. Some (h'', Some a, r))))
                  else
                    Option.bind (h_insert_aux h (h_hikid n) s t sz pos)
                      (\<lambda>(h', u, r). Option.bind (h_store h' a (\<lambda>n. n\<lparr>h_hikid := u\<rparr>))
                         (\<lambda>h''. Some (h'', Some a, r))))))"

text \<open>The loop of \<^verbatim>\<open>remove\<close>.\<close>

partial_function (option) h_remove_loop ::
  "'v heap \<Rightarrow> addr option \<Rightarrow> string \<Rightarrow> nat \<Rightarrow> ('v heap \<times> nat \<times> bool) option" where
  "h_remove_loop h p s sz =
     (case p of
        None \<Rightarrow> Some (h, sz, False)
      | Some a \<Rightarrow>
          (case cells h a of
             None \<Rightarrow> None
           | Some n \<Rightarrow>
               if comp_m (deref s) (h_splitchar n) then h_remove_loop h (h_lokid n) s sz
               else if \<not> comp_m (deref s) (h_splitchar n) \<and> \<not> comp_m (h_splitchar n) (deref s) then
                 (if tl s = [] \<and> h_pdata n \<noteq> None then
                    Option.bind (h_store h a (\<lambda>n. n\<lparr>h_pdata := None\<rparr>))
                      (\<lambda>h'. Some (h', sz - 1, True))
                  else h_remove_loop h (h_eqkid n) (tl s) sz)
               else h_remove_loop h (h_hikid n) s sz))"

text \<open>
  \<^verbatim>\<open>__travel\<close>, for a visitor that may change the heap: every \<^verbatim>\<open>p->\<close> reads the node
  in the heap as the calls before have left it.
\<close>

partial_function (option) h_travel ::
  "addr option \<Rightarrow> string \<Rightarrow> (string \<Rightarrow> 'v \<Rightarrow> 'v heap \<times> 'u \<Rightarrow> ('v heap \<times> 'u) option) \<Rightarrow>
   'v heap \<times> 'u \<Rightarrow> ('v heap \<times> 'u) option" where
  "h_travel p cur_str f st =
     (case p of
        None \<Rightarrow> Some st
      | Some a \<Rightarrow>
          (case cells (fst st) a of
             None \<Rightarrow> None
           | Some n \<Rightarrow>
               Option.bind (h_travel (h_lokid n) cur_str f st)
                 (\<lambda>st1.
                    (case cells (fst st1) a of
                       None \<Rightarrow> None
                     | Some n1 \<Rightarrow>
                         Option.bind (h_travel (h_eqkid n1) (cur_str @ [h_splitchar n1]) f st1)
                           (\<lambda>st2.
                              (case cells (fst st2) a of
                                 None \<Rightarrow> None
                               | Some n2 \<Rightarrow>
                                   Option.bind (h_travel (h_hikid n2) cur_str f st2)
                                     (\<lambda>st3.
                                        (case cells (fst st3) a of
                                           None \<Rightarrow> None
                                         | Some n3 \<Rightarrow>
                                             (case h_pdata n3 of
                                                Some v \<Rightarrow> f (cur_str @ [h_splitchar n3]) v st3
                                              | None \<Rightarrow> Some st3)))))))))"

text \<open>The recursive equations evaluate these functions.\<close>

declare h_find_loop.simps [code] h_insert_aux.simps [code] h_remove_loop.simps [code]
  h_travel.simps [code]

text \<open>
  A container object with its members, the public operations, \<^verbatim>\<open>__insert_helper\<close> and the
  copy constructor.
\<close>

record hmap =
  hm_root :: "addr option"
  hm_size :: nat

definition hm_new :: hmap where
  "hm_new = \<lparr>hm_root = None, hm_size = 0\<rparr>"

definition hm_insert ::
  "'v heap \<Rightarrow> hmap \<Rightarrow> string \<Rightarrow> 'v \<Rightarrow> ('v heap \<times> hmap \<times> 'v option) option" where
  "hm_insert h m str val =
     Option.bind (h_insert_aux h (hm_root m) (c_str str) val (hm_size m) None)
       (\<lambda>(h', p, sz, pos). Some (h', \<lparr>hm_root = p, hm_size = sz\<rparr>, pos))"

definition hm_find :: "'v heap \<Rightarrow> hmap \<Rightarrow> string \<Rightarrow> 'v option option" where
  "hm_find h m str = h_find_loop h (hm_root m) (c_str str)"

definition hm_remove :: "'v heap \<Rightarrow> hmap \<Rightarrow> string \<Rightarrow> ('v heap \<times> hmap \<times> bool) option" where
  "hm_remove h m str =
     Option.bind (h_remove_loop h (hm_root m) (c_str str) (hm_size m))
       (\<lambda>(h', sz, b). Some (h', m\<lparr>hm_size := sz\<rparr>, b))"

definition hm_insert_helper ::
  "string \<Rightarrow> 'v \<Rightarrow> 'v heap \<times> hmap \<Rightarrow> ('v heap \<times> hmap) option" where
  "hm_insert_helper str t st =
     Option.bind (hm_insert (fst st) (snd st) str t) (\<lambda>(h', m', pos). Some (h', m'))"

definition hm_copy :: "'v heap \<Rightarrow> hmap \<Rightarrow> ('v heap \<times> hmap) option" where
  "hm_copy h st = h_travel (hm_root st) [] hm_insert_helper (h, hm_new)"

text \<open>Sequences of insertions and removals, on the store and on trees.\<close>

datatype 'v mutation = Insert string 'v | Remove string

fun hm_mutate :: "'v heap \<Rightarrow> hmap \<Rightarrow> 'v mutation list \<Rightarrow> ('v heap \<times> hmap) option" where
  "hm_mutate h m [] = Some (h, m)"
| "hm_mutate h m (Insert k v # ms) =
     Option.bind (hm_insert h m k v) (\<lambda>(h', m', pos). hm_mutate h' m' ms)"
| "hm_mutate h m (Remove k # ms) =
     Option.bind (hm_remove h m k) (\<lambda>(h', m', b). hm_mutate h' m' ms)"

fun mutate :: "'v tst_map \<Rightarrow> 'v mutation list \<Rightarrow> 'v tst_map" where
  "mutate m [] = m"
| "mutate m (Insert k v # ms) = mutate (fst (insert_tst m k v)) ms"
| "mutate m (Remove k # ms) = mutate (fst (remove m k)) ms"

text \<open>
  The heap holds the tree \<open>t\<close> at the link \<open>p\<close>: \<open>foot\<close> collects the addresses of its
  nodes, and \<open>rep\<close> says that the nodes have the fields of \<open>t\<close> and that no address occurs
  twice (every node is owned by one link).
\<close>

fun foot :: "(addr \<Rightarrow> 'v hnode option) \<Rightarrow> addr option \<Rightarrow> 'v tnode \<Rightarrow> addr set" where
  "foot c p Null = {}"
| "foot c p (Node ch lo hi eq pd) =
     (case p of
        None \<Rightarrow> {}
      | Some a \<Rightarrow>
          (case c a of
             None \<Rightarrow> {a}
           | Some n \<Rightarrow>
               insert a (foot c (h_lokid n) lo \<union> foot c (h_hikid n) hi \<union>
                 foot c (h_eqkid n) eq)))"

fun rep :: "(addr \<Rightarrow> 'v hnode option) \<Rightarrow> addr option \<Rightarrow> 'v tnode \<Rightarrow> bool" where
  "rep c p Null = (p = None)"
| "rep c p (Node ch lo hi eq pd) =
     (case p of
        None \<Rightarrow> False
      | Some a \<Rightarrow>
          (case c a of
             None \<Rightarrow> False
           | Some n \<Rightarrow>
               h_splitchar n = ch \<and> h_pdata n = pd \<and>
               rep c (h_lokid n) lo \<and> rep c (h_hikid n) hi \<and> rep c (h_eqkid n) eq \<and>
               a \<notin> foot c (h_lokid n) lo \<and> a \<notin> foot c (h_hikid n) hi \<and>
               a \<notin> foot c (h_eqkid n) eq \<and>
               foot c (h_lokid n) lo \<inter> foot c (h_hikid n) hi = {} \<and>
               foot c (h_lokid n) lo \<inter> foot c (h_eqkid n) eq = {} \<and>
               foot c (h_hikid n) hi \<inter> foot c (h_eqkid n) eq = {}))"

text \<open>
  A container object represents a container state: its tree is in the heap at its root, at
  allocated addresses, and its counter is that of the state.
\<close>

definition hrep :: "'v heap \<Rightarrow> hmap \<Rightarrow> 'v tst_map \<Rightarrow> bool" where
  "hrep h m t =
     (rep (cells h) (hm_root m) (root_m t) \<and> hm_size m = size_m t \<and>
      foot (cells h) (hm_root m) (root_m t) \<subseteq> {..<next_free h})"

text \<open>A container is represented apart from the allocated addresses \<open>S\<close>.\<close>

definition away :: "addr set \<Rightarrow> 'v heap \<Rightarrow> hmap \<Rightarrow> 'v tst_map \<Rightarrow> bool" where
  "away S h m t =
     (hrep h m t \<and> foot (cells h) (hm_root m) (root_m t) \<inter> S = {} \<and> S \<subseteq> {..<next_free h})"

section \<open>Properties\<close>

subsection \<open>Evaluation of the key conversion\<close>

lemma c_str_Nil [simp]: "c_str [] = []"
  by (simp add: c_str_def)

lemma c_str_Cons [simp]: "c_str (c # cs) = (if c = NUL then [] else c # c_str cs)"
  by (simp add: c_str_def)

lemma NUL_notin_c_str [simp]: "NUL \<notin> set (c_str str)"
  by (induction str) auto

lemma c_str_id: "NUL \<notin> set s \<Longrightarrow> c_str s = s"
  by (induction s) auto

subsection \<open>Insertion\<close>

lemma insert_aux_Null_single [simp]:
  "insert_aux Null [c] t sz pos = (Node c Null Null Null (Some t), sz + 1, Some t)"
  by (simp add: new_tnode_def)

lemma insert_aux_Null_more [simp]:
  "cs \<noteq> [] \<Longrightarrow> insert_aux Null (c # cs) t sz pos =
     (case insert_aux Null cs t sz pos of (eq', r) \<Rightarrow> (Node c Null Null eq' None, r))"
  by (simp add: new_tnode_def)

declare insert_aux.simps(2) [simp del]

lemma find_insert_same:
  "s \<noteq> [] \<Longrightarrow> find_loop (fst (insert_aux p s t sz pos)) s = Some t"
  by (induction p s t sz pos rule: insert_aux.induct)
     (auto simp: new_tnode_def insert_aux.simps(2) split: prod.splits)

lemma find_insert_other:
  "s \<noteq> [] \<Longrightarrow> NUL \<notin> set s \<Longrightarrow> s' \<noteq> s \<Longrightarrow>
   find_loop (fst (insert_aux p s t sz pos)) s' = find_loop p s'"
proof (induction p s t sz pos arbitrary: s' rule: insert_aux.induct)
  case (1 p t sz pos)
  then show ?case by simp
next
  case (2 c cs t sz pos)
  then show ?case by (simp add: insert_aux.simps(2) new_tnode_def)
next
  case (3 ch lo hi eq pd c cs t sz pos)
  show ?case
  proof (cases s')
    case Nil
    with 3 show ?thesis by (auto split: prod.splits)
  next
    case (Cons a as)
    with 3 show ?thesis by (auto split: prod.splits)
  qed
qed

lemma insert_aux_size:
  "s \<noteq> [] \<Longrightarrow> snd (insert_aux p s t sz pos) =
     ((if find_loop p s = None then sz + 1 else sz), Some t)"
  by (induction p s t sz pos rule: insert_aux.induct)
     (auto simp: new_tnode_def insert_aux.simps(2) split: prod.splits)

lemma insert_aux_payloads:
  "s \<noteq> [] \<Longrightarrow> payloads (fst (insert_aux p s t sz pos)) =
     (if find_loop p s = None then payloads p + 1 else payloads p)"
  by (induction p s t sz pos rule: insert_aux.induct)
     (auto simp: new_tnode_def insert_aux.simps(2) split: prod.splits)

lemma insert_aux_level:
  "s \<noteq> [] \<Longrightarrow> level_chars (fst (insert_aux p s t sz pos)) = insert (hd s) (level_chars p)"
proof (induction p s t sz pos rule: insert_aux.induct)
  case (1 p t sz pos)
  then show ?case by simp
next
  case (2 c cs t sz pos)
  then show ?case by (simp add: insert_aux.simps(2) new_tnode_def)
next
  case (3 ch lo hi eq pd c cs t sz pos)
  then show ?case by (auto simp: case_prod_beta)
qed

lemma insert_aux_ok:
  "tst_ok p \<Longrightarrow> NUL \<notin> set s \<Longrightarrow> tst_ok (fst (insert_aux p s t sz pos))"
proof (induction p s t sz pos rule: insert_aux.induct)
  case (1 p t sz pos)
  then show ?case by simp
next
  case (2 c cs t sz pos)
  then show ?case by (auto simp add: insert_aux.simps(2) new_tnode_def)
next
  case (3 ch lo hi eq pd c cs t sz pos)
  then show ?case
    by (auto simp: case_prod_beta insert_aux_level)
qed

lemma insert_aux_shape:
  "s \<noteq> [] \<Longrightarrow> find_loop p s \<noteq> None \<Longrightarrow>
   map_tnode (\<lambda>_. ()) (fst (insert_aux p s t sz pos)) = map_tnode (\<lambda>_. ()) p"
  by (induction p s t sz pos rule: insert_aux.induct)
     (auto simp: new_tnode_def insert_aux.simps(2) split: prod.splits)

subsection \<open>Lookup and removal on trees\<close>

lemma find_loop_Nil: "tst_ok p \<Longrightarrow> find_loop p [] = None"
  by (induction p) auto

lemma find_loop_Some_nonul:
  "tst_ok p \<Longrightarrow> find_loop p s = Some v \<Longrightarrow> s \<noteq> [] \<and> NUL \<notin> set s"
proof (induction p arbitrary: s)
  case Null
  then show ?case by simp
next
  case (Node ch lo hi eq pd)
  show ?case
  proof (cases s)
    case Nil
    with Node.prems show ?thesis by (auto simp: find_loop_Nil split: if_splits)
  next
    case (Cons a as)
    then show ?thesis
      using Node.IH(1)[of s] Node.IH(2)[of s] Node.IH(3)[of as] Node.prems
      by (auto split: if_splits)
  qed
qed

lemma remove_loop_absent:
  "tst_ok p \<Longrightarrow> find_loop p s = None \<Longrightarrow> remove_loop p s sz = (p, sz, False)"
proof (induction p arbitrary: s)
  case Null
  then show ?case by simp
next
  case (Node ch lo hi eq pd)
  show ?case
  proof (cases s)
    case Nil
    with Node show ?thesis by (auto simp: find_loop_Nil)
  next
    case (Cons a as)
    with Node show ?thesis by (auto simp: find_loop_Nil split: if_splits)
  qed
qed

lemma remove_loop_present:
  "find_loop p s = Some v \<Longrightarrow> s \<noteq> [] \<Longrightarrow>
   snd (remove_loop p s sz) = (sz - 1, True) \<and>
   find_loop (fst (remove_loop p s sz)) s = None \<and>
   payloads p = Suc (payloads (fst (remove_loop p s sz))) \<and>
   level_chars (fst (remove_loop p s sz)) = level_chars p"
proof (induction p arbitrary: s)
  case Null
  then show ?case by simp
next
  case (Node ch lo hi eq pd)
  then show ?case by (cases s) (auto simp: case_prod_beta split: if_splits)
qed

lemma remove_loop_level: "level_chars (fst (remove_loop p s sz)) = level_chars p"
  by (induction p arbitrary: s) (auto simp: case_prod_beta)

lemma remove_loop_ok: "tst_ok p \<Longrightarrow> tst_ok (fst (remove_loop p s sz))"
  by (induction p arbitrary: s) (auto simp: case_prod_beta remove_loop_level)

lemma remove_loop_Nil: "tst_ok p \<Longrightarrow> remove_loop p [] sz = (p, sz, False)"
  by (simp add: remove_loop_absent find_loop_Nil)

lemma remove_loop_other:
  "tst_ok p \<Longrightarrow> NUL \<notin> set s \<Longrightarrow> s' \<noteq> s \<Longrightarrow>
   find_loop (fst (remove_loop p s sz)) s' = find_loop p s'"
proof (induction p arbitrary: s s')
  case Null
  then show ?case by simp
next
  case (Node ch lo hi eq pd)
  show ?case
  proof (cases s)
    case Nil
    then show ?thesis using Node.prems by (simp only: remove_loop_Nil fst_conv)
  next
    case s: (Cons a as)
    show ?thesis
    proof (cases s')
      case Nil
      then show ?thesis
        using Node.IH(1)[of s s'] Node.IH(2)[of s s'] Node.IH(3)[of as "[]"] Node.prems s
        by (auto simp: case_prod_beta remove_loop_Nil)
    next
      case (Cons b bs)
      then show ?thesis
        using Node.IH(1)[of s s'] Node.IH(2)[of s s'] Node.IH(3)[of as bs] Node.prems s
        by (auto simp: case_prod_beta remove_loop_Nil)
    qed
  qed
qed

subsection \<open>The operations of the container\<close>

lemma root_insert_tst:
  "root_m (fst (insert_tst m k v)) = fst (insert_aux (root_m m) (c_str k) v (size_m m) None)"
  by (simp add: insert_tst_def case_prod_beta)

lemma size_insert_tst:
  "size_m (fst (insert_tst m k v)) = fst (snd (insert_aux (root_m m) (c_str k) v (size_m m) None))"
  by (simp add: insert_tst_def case_prod_beta)

lemma handle_insert_tst:
  "snd (insert_tst m k v) = snd (snd (insert_aux (root_m m) (c_str k) v (size_m m) None))"
  by (simp add: insert_tst_def case_prod_beta)

lemma root_remove:
  "root_m (fst (remove m k)) = fst (remove_loop (root_m m) (c_str k) (size_m m))"
  by (simp add: remove_def case_prod_beta)

lemma size_remove:
  "size_m (fst (remove m k)) = fst (snd (remove_loop (root_m m) (c_str k) (size_m m)))"
  by (simp add: remove_def case_prod_beta)

lemma result_remove:
  "snd (remove m k) = snd (snd (remove_loop (root_m m) (c_str k) (size_m m)))"
  by (simp add: remove_def case_prod_beta)

lemma insert_tst_empty: "c_str k = [] \<Longrightarrow> insert_tst m k v = (m, None)"
  by (simp add: insert_tst_def)

lemma find_insert_tst_same:
  "c_str k \<noteq> [] \<Longrightarrow> find_tst (fst (insert_tst m k v)) k = Some v"
  by (simp add: find_tst_def root_insert_tst find_insert_same)

lemma find_insert_tst_other:
  "c_str k' \<noteq> c_str k \<Longrightarrow> find_tst (fst (insert_tst m k v)) k' = find_tst m k'"
proof (cases "c_str k = []")
  case True
  then show ?thesis by (simp add: insert_tst_empty)
next
  case False
  assume "c_str k' \<noteq> c_str k"
  with False show ?thesis
    by (simp add: find_tst_def root_insert_tst find_insert_other)
qed

lemma size_insert_tst_eq:
  "c_str k \<noteq> [] \<Longrightarrow>
   size_m (fst (insert_tst m k v)) = (if find_tst m k = None then size_m m + 1 else size_m m)"
  using insert_aux_size[of "c_str k" "root_m m" v "size_m m" None]
  by (simp add: size_insert_tst find_tst_def)

lemma handle_insert_tst_eq: "c_str k \<noteq> [] \<Longrightarrow> snd (insert_tst m k v) = Some v"
  using insert_aux_size[of "c_str k" "root_m m" v "size_m m" None]
  by (simp add: handle_insert_tst)

lemma invar_new: "invar tst_map_new"
  by (simp add: invar_def tst_map_new_def)

lemma invar_insert: "invar m \<Longrightarrow> invar (fst (insert_tst m k v))"
proof (cases "c_str k = []")
  case True
  assume "invar m"
  with True show ?thesis by (simp add: insert_tst_empty)
next
  case False
  assume "invar m"
  with False show ?thesis
    using insert_aux_size[of "c_str k" "root_m m" v "size_m m" None]
    by (simp add: invar_def root_insert_tst size_insert_tst insert_aux_ok insert_aux_payloads)
qed

lemma find_tst_empty: "invar m \<Longrightarrow> c_str k = [] \<Longrightarrow> find_tst m k = None"
  by (simp add: find_tst_def invar_def find_loop_Nil)

lemma remove_absent: "invar m \<Longrightarrow> find_tst m k = None \<Longrightarrow> remove m k = (m, False)"
  by (simp add: remove_def find_tst_def invar_def remove_loop_absent)

lemma remove_present:
  assumes "invar m" and "find_tst m k = Some v"
  shows "snd (remove m k) = True" and "find_tst (fst (remove m k)) k = None"
    and "size_m m = size_m (fst (remove m k)) + 1" and "invar (fst (remove m k))"
proof -
  let ?p = "root_m m" and ?s = "c_str k"
  from assms have f: "find_loop ?p ?s = Some v" and ok: "tst_ok ?p"
    and sz: "size_m m = payloads ?p"
    by (simp_all add: find_tst_def invar_def)
  from find_loop_Some_nonul[OF ok f] have ne: "?s \<noteq> []" by simp
  note r = remove_loop_present[OF f ne, of "size_m m"]
  from r show "snd (remove m k) = True" by (simp add: result_remove)
  from r show "find_tst (fst (remove m k)) k = None" by (simp add: find_tst_def root_remove)
  from r sz show "size_m m = size_m (fst (remove m k)) + 1"
    by (cases "remove_loop ?p ?s (size_m m)") (auto simp: size_remove)
  from r sz have "fst (snd (remove_loop ?p ?s (size_m m))) =
      payloads (fst (remove_loop ?p ?s (size_m m)))"
    by (cases "remove_loop ?p ?s (size_m m)") auto
  with ok show "invar (fst (remove m k))"
    by (simp add: invar_def size_remove root_remove remove_loop_ok)
qed

lemma invar_remove: "invar m \<Longrightarrow> invar (fst (remove m k))"
  by (cases "find_tst m k") (auto simp: remove_absent remove_present(4))

lemma find_remove_other:
  "invar m \<Longrightarrow> c_str k' \<noteq> c_str k \<Longrightarrow> find_tst (fst (remove m k)) k' = find_tst m k'"
  by (simp add: find_tst_def root_remove invar_def remove_loop_other)

lemma reachable_invar: "reachable m \<Longrightarrow> invar m"
  by (induction rule: reachable.induct) (simp_all add: invar_new invar_insert invar_remove)

subsection \<open>Round trip of insertion and lookup\<close>

text \<open>
  Claim C4, for keys that are not empty as C strings. In every container state (no
  invariant is needed), for every key \<open>k\<close> whose first character is not NUL and every
  value \<open>v\<close>: after \<^verbatim>\<open>insert(k, v)\<close>, \<^verbatim>\<open>find(k)\<close> returns a handle to \<open>v\<close>.
\<close>

theorem insert_find_roundtrip:
  assumes "c_str k \<noteq> []"
  shows "find_tst (fst (insert_tst m k v)) k = Some v"
proof -
  from assms
  have "find_loop (fst (insert_aux (root_m m) (c_str k) v (size_m m) None)) (c_str k) = Some v"
    by (rule find_insert_same)
  then show ?thesis by (simp add: find_tst_def root_insert_tst)
qed

theorem insert_find_roundtrip_witness:
  "c_str ''car'' \<noteq> [] \<and>
   find_tst (fst (insert_tst (inserts [(''cat'', 1::nat), (''bat'', 2)] tst_map_new) ''car'' 7))
     ''car'' = Some 7"
  using insert_find_roundtrip[of "''car''" "inserts [(''cat'', 1::nat), (''bat'', 2)] tst_map_new" 7]
  by (simp add: NUL_def)

text \<open>
  A key that is not empty but begins with NUL is empty as a C string: \<^verbatim>\<open>insert\<close> ignores
  it and \<^verbatim>\<open>find\<close> returns the null handle.
\<close>

theorem insert_find_roundtrip_counterexample:
  "[CHR 0x00] \<noteq> [] \<and>
   find_tst (fst (insert_tst tst_map_new [CHR 0x00] (1::nat))) [CHR 0x00] \<noteq> Some 1"
  by (simp add: find_tst_def insert_tst_def tst_map_new_def NUL_def)

subsection \<open>Removal\<close>

text \<open>
  Claim C5. In every container state and for every key \<open>k\<close>: if \<^verbatim>\<open>find(k)\<close> is present,
  \<^verbatim>\<open>remove(k)\<close> returns true, afterwards \<^verbatim>\<open>find(k)\<close> is absent and the size is smaller by
  exactly 1, and a following \<^verbatim>\<open>insert(k, v2)\<close> makes \<^verbatim>\<open>find(k)\<close> return \<open>v2\<close> and the
  size greater by exactly 1; if \<^verbatim>\<open>find(k)\<close> is absent, \<^verbatim>\<open>remove(k)\<close> returns false and
  leaves the size and the result of \<^verbatim>\<open>find\<close> for every key as they were.
\<close>

theorem remove_present_absent:
  assumes "invar m"
  shows "(find_tst m k \<noteq> None \<longrightarrow>
            snd (remove m k) = True \<and>
            find_tst (fst (remove m k)) k = None \<and>
            size_m (fst (remove m k)) + 1 = size_m m \<and>
            find_tst (fst (insert_tst (fst (remove m k)) k v2)) k = Some v2 \<and>
            size_m (fst (insert_tst (fst (remove m k)) k v2)) = size_m (fst (remove m k)) + 1) \<and>
         (find_tst m k = None \<longrightarrow>
            snd (remove m k) = False \<and>
            size_m (fst (remove m k)) = size_m m \<and>
            (\<forall>k'. find_tst (fst (remove m k)) k' = find_tst m k'))"
proof (cases "find_tst m k")
  case None
  with assms show ?thesis by (simp add: remove_absent)
next
  case (Some v)
  note r = remove_present[OF assms Some]
  have ne: "c_str k \<noteq> []"
    using find_tst_empty[OF assms, of k] Some by auto
  from r(2) ne have "size_m (fst (insert_tst (fst (remove m k)) k v2)) =
      size_m (fst (remove m k)) + 1"
    by (simp add: size_insert_tst_eq)
  with Some r ne show ?thesis by (simp add: find_insert_tst_same)
qed

theorem remove_present_absent_witness:
  "invar (inserts [(''cat'', 1::nat), (''car'', 2)] tst_map_new) \<and>
   find_tst (inserts [(''cat'', 1::nat), (''car'', 2)] tst_map_new) ''cat'' \<noteq> None \<and>
   snd (remove (inserts [(''cat'', 1::nat), (''car'', 2)] tst_map_new) ''cat'') = True \<and>
   size_m (fst (remove (inserts [(''cat'', 1::nat), (''car'', 2)] tst_map_new) ''cat'')) + 1 =
     size_m (inserts [(''cat'', 1::nat), (''car'', 2)] tst_map_new) \<and>
   find_tst (inserts [(''cat'', 1::nat), (''car'', 2)] tst_map_new) ''ca'' = None \<and>
   snd (remove (inserts [(''cat'', 1::nat), (''car'', 2)] tst_map_new) ''ca'') = False"
proof -
  let ?m = "inserts [(''cat'', 1::nat), (''car'', 2)] tst_map_new"
  have i: "invar ?m" by (simp add: invar_insert invar_new)
  have p: "find_tst ?m ''cat'' \<noteq> None"
    by (simp add: find_tst_def insert_tst_def tst_map_new_def NUL_def)
  have a: "find_tst ?m ''ca'' = None"
    by (simp add: find_tst_def insert_tst_def tst_map_new_def NUL_def)
  from remove_present_absent[OF i, of "''cat''"] remove_present_absent[OF i, of "''ca''"] i p a
  show ?thesis by blast
qed

subsection \<open>Repeated insertion\<close>

text \<open>
  Claim C7, with the lookup for keys that are not empty as C strings. In every container
  state, for every key \<open>k\<close> and values \<open>v1\<close>, \<open>v2\<close>: \<^verbatim>\<open>insert(k, v1)\<close> followed by
  \<^verbatim>\<open>insert(k, v2)\<close> leaves the size at its value after the first insert and the tree with
  the nodes and links it had after the first insert (only payload values differ); and if the
  first character of \<open>k\<close> is not NUL, \<^verbatim>\<open>find(k)\<close> then returns \<open>v2\<close>.
\<close>

theorem insert_twice:
  "size_m (fst (insert_tst (fst (insert_tst m k v1)) k v2)) = size_m (fst (insert_tst m k v1)) \<and>
   map_tnode (\<lambda>_. ()) (root_m (fst (insert_tst (fst (insert_tst m k v1)) k v2))) =
     map_tnode (\<lambda>_. ()) (root_m (fst (insert_tst m k v1))) \<and>
   (c_str k \<noteq> [] \<longrightarrow> find_tst (fst (insert_tst (fst (insert_tst m k v1)) k v2)) k = Some v2)"
proof (cases "c_str k = []")
  case True
  then show ?thesis by (simp add: insert_tst_empty)
next
  case False
  let ?m1 = "fst (insert_tst m k v1)"
  from False have f: "find_tst ?m1 k = Some v1" by (rule find_insert_tst_same)
  then have "find_loop (root_m ?m1) (c_str k) \<noteq> None" by (simp add: find_tst_def)
  from insert_aux_shape[OF False this]
  have "map_tnode (\<lambda>_. ()) (root_m (fst (insert_tst ?m1 k v2))) =
      map_tnode (\<lambda>_. ()) (root_m ?m1)"
    by (simp only: root_insert_tst[of ?m1])
  with False f show ?thesis by (simp add: size_insert_tst_eq find_insert_tst_same)
qed

theorem insert_twice_witness:
  "c_str ''cat'' \<noteq> [] \<and>
   find_tst (fst (insert_tst (fst (insert_tst tst_map_new ''cat'' (1::nat))) ''cat'' 2)) ''cat''
     = Some 2 \<and>
   size_m (fst (insert_tst (fst (insert_tst tst_map_new ''cat'' (1::nat))) ''cat'' 2)) =
     size_m (fst (insert_tst tst_map_new ''cat'' (1::nat)))"
  using insert_twice[of tst_map_new "''cat''" "1::nat" 2] by (simp add: NUL_def)

theorem insert_twice_counterexample:
  "[CHR 0x00] \<noteq> [] \<and>
   find_tst (fst (insert_tst (fst (insert_tst tst_map_new [CHR 0x00] (1::nat))) [CHR 0x00] 2))
     [CHR 0x00] \<noteq> Some 2"
  by (simp add: find_tst_def insert_tst_def tst_map_new_def NUL_def)

subsection \<open>The empty key\<close>

text \<open>
  Claim C8. In every container state and for every value \<open>v\<close>: \<^verbatim>\<open>insert("", v)\<close> leaves the
  container, so its size, as it was and returns the null handle, and \<^verbatim>\<open>find("")\<close> returns
  absent, before and after.
\<close>

theorem empty_key_ignored:
  assumes "invar m"
  shows "size_m (fst (insert_tst m [] v)) = size_m m \<and> fst (insert_tst m [] v) = m \<and>
         snd (insert_tst m [] v) = None \<and>
         find_tst m [] = None \<and> find_tst (fst (insert_tst m [] v)) [] = None"
  using assms by (simp add: insert_tst_empty find_tst_empty)

theorem empty_key_ignored_witness:
  "invar (inserts [(''cat'', 1::nat), (''car'', 2)] tst_map_new) \<and>
   size_m (fst (insert_tst (inserts [(''cat'', 1::nat), (''car'', 2)] tst_map_new) [] 5)) =
     size_m (inserts [(''cat'', 1::nat), (''car'', 2)] tst_map_new) \<and>
   snd (insert_tst (inserts [(''cat'', 1::nat), (''car'', 2)] tst_map_new) [] 5) = None \<and>
   find_tst (inserts [(''cat'', 1::nat), (''car'', 2)] tst_map_new) [] = None"
proof -
  have i: "invar (inserts [(''cat'', 1::nat), (''car'', 2)] tst_map_new)"
    by (simp add: invar_insert invar_new)
  from empty_key_ignored[OF i, of 5] i show ?thesis by simp
qed

subsection \<open>Traversal\<close>

lemma travel_entries:
  "travel p cur f st = fold (\<lambda>(k, v). f (cur @ k) v) (entries p) st"
proof (induction p arbitrary: cur st)
  case Null
  then show ?case by simp
next
  case (Node ch lo hi eq pd)
  then show ?case
    by (cases pd) (simp_all add: fold_map comp_def case_prod_beta)
qed

lemma fold_push_back: "fold (\<lambda>(k, v). push_back k v) xs c = c @ xs"
  by (induction xs arbitrary: c) (auto simp: push_back_def)

lemma sequence_entries: "sequence m c = entries (root_m m)"
  by (simp add: sequence_def clear_seq_def travel_entries fold_push_back)

lemma length_entries: "length (entries p) = payloads p"
  by (induction p) (auto split: option.splits)

lemma entries_hd:
  "(k, v) \<in> set (entries p) \<Longrightarrow> k \<noteq> [] \<and> hd k \<in> level_chars p"
  by (induction p) (auto split: option.splits)

lemma entries_find:
  "tst_ok p \<Longrightarrow> (k, v) \<in> set (entries p) \<longleftrightarrow> find_loop p k = Some v"
proof (induction p arbitrary: k)
  case Null
  then show ?case by simp
next
  case (Node ch lo hi eq pd)
  show ?case
  proof (cases k)
    case Nil
    then show ?thesis
      using Node.prems entries_hd[of k v "Node ch lo hi eq pd"]
        find_loop_Nil[of "Node ch lo hi eq pd"] by auto
  next
    case (Cons a as)
    have lo: "(k, v) \<in> set (entries lo) \<Longrightarrow> a < ch"
      using entries_hd[of k v lo] Node.prems Cons by auto
    have hi: "(k, v) \<in> set (entries hi) \<Longrightarrow> ch < a"
      using entries_hd[of k v hi] Node.prems Cons by auto
    have eq: "(as, v) \<in> set (entries eq) \<Longrightarrow> as \<noteq> []"
      using entries_hd[of as v eq] by auto
    have eq': "find_loop eq [] = None"
      using Node.prems by (simp add: find_loop_Nil)
    show ?thesis
      using Node.IH(1)[of k] Node.IH(2)[of k] Node.IH(3)[of as] Node.prems Cons lo hi eq eq'
      by (auto split: option.splits)
  qed
qed

lemma entries_distinct: "tst_ok p \<Longrightarrow> distinct (map fst (entries p))"
proof (induction p)
  case Null
  then show ?case by simp
next
  case (Node ch lo hi eq pd)
  have inj: "distinct (map fst (map (\<lambda>(k, v). (ch # k, v)) (entries eq)))"
    using Node by (simp add: distinct_map comp_def case_prod_beta inj_on_def)
  show ?case
    using Node inj
    by (fastforce dest!: entries_hd split: option.splits)
qed

subsection \<open>Partial-match search on trees\<close>

lemma pmsearch_aux_entries:
  "pmsearch_aux p s cur c = c @ map (\<lambda>(k, v). (cur @ k, v)) (pm_entries p s)"
proof (induction p arbitrary: s cur c)
  case Null
  then show ?case by (cases s) simp_all
next
  case (Node ch lo hi eq pd)
  show ?case
  proof (cases s)
    case Nil
    then show ?thesis by simp
  next
    case (Cons a as)
    show ?thesis
      unfolding Cons pmsearch_aux.simps pm_entries.simps Let_def Node.IH
      by (cases pd) (auto simp: comp_def case_prod_beta)
  qed
qed

lemma pm_entries_hd:
  "(k, v) \<in> set (pm_entries p s) \<Longrightarrow> k \<noteq> [] \<and> hd k \<in> level_chars p"
proof (induction p arbitrary: s)
  case Null
  then show ?case by (cases s) simp_all
next
  case (Node ch lo hi eq pd)
  show ?case
  proof (cases s)
    case Nil
    with Node.prems show ?thesis by simp
  next
    case (Cons a as)
    with Node.prems Node.IH(1)[of "a # as"] Node.IH(2)[of "a # as"] show ?thesis
      by (auto split: option.splits if_splits)
  qed
qed

lemma pm_match_Nil [simp]: "pm_match s [] \<longleftrightarrow> s = []"
  by (cases s) auto

lemma pm_match_Nil2 [simp]: "pm_match [] k \<longleftrightarrow> k = []"
  by (cases k) auto

lemma pm_match_Cons:
  "pm_match s (x # xs) \<longleftrightarrow> (\<exists>a as. s = a # as \<and> (a = CHR ''.'' \<or> a = x) \<and> pm_match as xs)"
  by (cases s) auto

lemma pm_entries_find:
  "tst_ok p \<Longrightarrow> (k, v) \<in> set (pm_entries p s) \<longleftrightarrow> pm_match s k \<and> find_loop p k = Some v"
proof (induction p arbitrary: s k)
  case Null
  then show ?case by (cases s) simp_all
next
  case (Node ch lo hi eq pd)
  let ?n = "Node ch lo hi eq pd"
  show ?case
  proof (cases s)
    case Nil
    have "find_loop ?n [] = None" by (rule find_loop_Nil[OF Node.prems])
    then show ?thesis unfolding Nil by (cases k) (simp_all del: find_loop.simps)
  next
    case s: (Cons a as)
    show ?thesis
    proof (cases k)
      case Nil
      have "find_loop ?n [] = None" by (rule find_loop_Nil[OF Node.prems])
      then show ?thesis
        using pm_entries_hd[of k v ?n s] unfolding Nil s by (auto simp del: find_loop.simps pm_entries.simps)
    next
      case k: (Cons x xs)
      have lo: "(k, v) \<in> set (pm_entries lo s) \<Longrightarrow> x < ch"
        using pm_entries_hd[of k v lo s] Node.prems k by auto
      have hi: "(k, v) \<in> set (pm_entries hi s) \<Longrightarrow> ch < x"
        using pm_entries_hd[of k v hi s] Node.prems k by auto
      have eq: "(xs, v) \<in> set (pm_entries eq as) \<Longrightarrow> xs \<noteq> []"
        using pm_entries_hd[of xs v eq as] by auto
      have ok: "tst_ok lo" "tst_ok hi" "tst_ok eq" using Node.prems by simp_all
      note IH = Node.IH(1)[OF ok(1), of k s] Node.IH(2)[OF ok(2), of k s]
        Node.IH(3)[OF ok(3), of xs as]
      consider (less) "x < ch" | (equal) "x = ch" | (greater) "ch < x"
        by (cases x ch rule: linorder_cases) auto
      then show ?thesis
      proof cases
        case less
        then show ?thesis
          using IH(1) IH(2) hi lo k s by (auto split: option.splits)
      next
        case greater
        then show ?thesis
          using IH(1) IH(2) hi lo k s by (auto split: option.splits)
      next
        case equal
        have nlo: "(k, v) \<notin> set (pm_entries lo s)" using lo equal by auto
        have nhi: "(k, v) \<notin> set (pm_entries hi s)" using hi equal by auto
        show ?thesis
        proof (cases "as = []")
          case True
          then show ?thesis
            using nlo nhi equal k s by (auto split: option.splits)
        next
          case False
          then show ?thesis
            using nlo nhi equal k s IH(3) eq by (auto split: option.splits)
        qed
      qed
    qed
  qed
qed

lemma distinct_by_hd:
  fixes ch :: char
  assumes "distinct (map fst L)" and "distinct (map fst E)" and "distinct (map fst H)"
    and "\<And>k v. (k, v) \<in> set L \<Longrightarrow> hd k < ch"
    and "\<And>k v. (k, v) \<in> set E \<Longrightarrow> hd k = ch"
    and "\<And>k v. (k, v) \<in> set H \<Longrightarrow> ch < hd k"
  shows "distinct (map fst (L @ E @ H))"
  using assms by (fastforce simp: distinct_append)

lemma pm_entries_distinct: "tst_ok p \<Longrightarrow> distinct (map fst (pm_entries p s))"
proof (induction p arbitrary: s)
  case Null
  then show ?case by (cases s) simp_all
next
  case (Node ch lo hi eq pd)
  show ?case
  proof (cases s)
    case Nil
    then show ?thesis by simp
  next
    case (Cons a as)
    let ?L = "if a = CHR ''.'' \<or> comp_m a ch then pm_entries lo (a # as) else []"
    let ?E = "if a = CHR ''.'' \<or> (\<not> comp_m a ch \<and> \<not> comp_m ch a) then
        (if as = [] then (case pd of Some v \<Rightarrow> [([ch], v)] | None \<Rightarrow> [])
         else map (\<lambda>(k, v). (ch # k, v)) (pm_entries eq as))
      else []"
    let ?H = "if a = CHR ''.'' \<or> comp_m ch a then pm_entries hi (a # as) else []"
    have ok: "tst_ok lo" "tst_ok hi" "tst_ok eq" using Node.prems by simp_all
    have dl: "distinct (map fst ?L)" using Node.IH(1)[OF ok(1)] by simp
    have dh: "distinct (map fst ?H)" using Node.IH(2)[OF ok(2)] by simp
    have de: "distinct (map fst ?E)"
      using Node.IH(3)[OF ok(3), of as]
      by (auto simp: distinct_map comp_def case_prod_beta inj_on_def split: option.splits)
    have hl: "\<And>k v. (k, v) \<in> set ?L \<Longrightarrow> hd k < ch"
      using Node.prems by (auto dest!: pm_entries_hd split: if_splits)
    have hh: "\<And>k v. (k, v) \<in> set ?H \<Longrightarrow> ch < hd k"
      using Node.prems by (auto dest!: pm_entries_hd split: if_splits)
    have he: "\<And>k v. (k, v) \<in> set ?E \<Longrightarrow> hd k = ch"
      by (auto split: if_splits option.splits)
    have "distinct (map fst (?L @ ?E @ ?H))"
    proof (rule distinct_by_hd[where ch = ch])
      show "distinct (map fst ?L)" by (rule dl)
      show "distinct (map fst ?E)" by (rule de)
      show "distinct (map fst ?H)" by (rule dh)
      show "\<And>k v. (k, v) \<in> set ?L \<Longrightarrow> hd k < ch" by (rule hl)
      show "\<And>k v. (k, v) \<in> set ?E \<Longrightarrow> hd k = ch" by (rule he)
      show "\<And>k v. (k, v) \<in> set ?H \<Longrightarrow> ch < hd k" by (rule hh)
    qed
    then show ?thesis by (simp only: Cons pm_entries.simps)
  qed
qed

subsection \<open>The pairs appended by the searches\<close>

lemma near_search_entries:
  "near_search p s d cur seq = seq @ map (\<lambda>(k, v). (cur @ k, v)) (near_entries p s d)"
proof (induction p arbitrary: s d cur seq)
  case Null
  then show ?case by simp
next
  case (Node ch lo hi eq pd)
  show ?case
    unfolding near_search.simps near_entries.simps Let_def Node.IH
    by (cases pd) (auto simp: comp_def case_prod_beta)
qed

lemma nearsearch_entries: "nearsearch m s d c = near_entries (root_m m) (c_str s) d"
  by (simp add: nearsearch_def clear_seq_def near_search_entries)

subsection \<open>What the traversal enumerates\<close>

lemma sequence_pairs:
  assumes "invar m"
  shows "(k, v) \<in> set (sequence m c) \<longleftrightarrow> NUL \<notin> set k \<and> find_tst m k = Some v"
proof -
  from assms have ok: "tst_ok (root_m m)" by (simp add: invar_def)
  show ?thesis
  proof (cases "NUL \<in> set k")
    case True
    then show ?thesis
      using find_loop_Some_nonul[OF ok, of k v]
      by (auto simp: sequence_entries entries_find[OF ok])
  next
    case False
    then show ?thesis
      by (simp add: sequence_entries entries_find[OF ok] find_tst_def c_str_id)
  qed
qed

lemma sequence_distinct: "invar m \<Longrightarrow> distinct (map fst (sequence m c))"
  by (simp add: sequence_entries invar_def entries_distinct)

lemma sequence_length: "invar m \<Longrightarrow> length (sequence m c) = size_m m"
  by (simp add: sequence_entries invar_def length_entries)

lemma foreach_sequence: "foreach m push_back [] = sequence m c"
  by (simp add: foreach_def sequence_def clear_seq_def)

text \<open>
  Claim C1, at an input where it fails. After \<^verbatim>\<open>insert("a", 1)\<close> and \<^verbatim>\<open>insert("b", 2)\<close> on
  an empty container, \<^verbatim>\<open>sequence\<close> and \<^verbatim>\<open>foreach\<close> produce the key "b" before the key "a":
  \<open>travel\<close> visits the payload of a node after the subtrees below \<^verbatim>\<open>eqkid\<close> and
  \<^verbatim>\<open>hikid\<close>. (That every pair present is visited exactly once is \<open>sequence_pairs\<close>,
  \<open>sequence_distinct\<close> and \<open>sequence_length\<close>.)
\<close>

theorem sequence_order_example:
  "sequence (inserts [(''a'', 1::nat), (''b'', 2)] tst_map_new) c = [(''b'', 2), (''a'', 1)] \<and>
   foreach (inserts [(''a'', 1::nat), (''b'', 2)] tst_map_new) push_back [] =
     [(''b'', 2), (''a'', 1)] \<and>
   ''a'' < ''b'' \<and>
   \<not> sorted_wrt (<) (map fst (sequence (inserts [(''a'', 1::nat), (''b'', 2)] tst_map_new) c))"
  by (simp add: sequence_def foreach_def clear_seq_def push_back_def insert_tst_def
      tst_map_new_def NUL_def)

subsection \<open>Removal leaves the other keys\<close>

text \<open>
  Claim C6, for keys that are distinct as C strings. In every container state and for every
  two keys \<open>k\<close> and \<open>k2\<close> for which \<^verbatim>\<open>find\<close> returns a handle (to \<open>v\<close> and to \<open>v2\<close>) and
  which differ before their first NUL: after \<^verbatim>\<open>remove(k)\<close>, \<^verbatim>\<open>find(k2)\<close> returns a
  handle to \<open>v2\<close>, the value it returned before. In particular after inserting "cat" and
  "car" and removing "cat", \<^verbatim>\<open>find("car")\<close> returns the value inserted with "car".
\<close>

theorem remove_keeps_other_keys:
  "(invar m \<and> find_tst m k = Some v \<and> find_tst m k2 = Some v2 \<and> c_str k \<noteq> c_str k2 \<longrightarrow>
      find_tst (fst (remove m k)) k2 = Some v2) \<and>
   find_tst (fst (remove (inserts [(''cat'', 1::nat), (''car'', 2)] tst_map_new) ''cat'')) ''car''
     = Some 2"
proof -
  have "find_tst (fst (remove m k)) k2 = Some v2"
    if i: "invar m" and f: "find_tst m k2 = Some v2" and ne: "c_str k \<noteq> c_str k2"
  proof -
    from ne have "c_str k2 \<noteq> c_str k" by simp
    with i have "find_tst (fst (remove m k)) k2 = find_tst m k2" by (rule find_remove_other)
    with f show ?thesis by simp
  qed
  moreover have "find_tst (fst (remove (inserts [(''cat'', 1::nat), (''car'', 2)] tst_map_new)
      ''cat'')) ''car'' = Some 2"
    by (simp add: find_tst_def remove_def insert_tst_def tst_map_new_def NUL_def)
  ultimately show ?thesis by blast
qed

theorem remove_keeps_other_keys_witness:
  "invar (inserts [(''cat'', 1::nat), (''car'', 2), (''ca'', 3)] tst_map_new) \<and>
   find_tst (inserts [(''cat'', 1::nat), (''car'', 2), (''ca'', 3)] tst_map_new) ''ca'' = Some 3 \<and>
   find_tst (inserts [(''cat'', 1::nat), (''car'', 2), (''ca'', 3)] tst_map_new)
     [CHR ''c'', CHR ''a'', CHR ''r'', CHR 0x00, CHR ''z''] = Some 2 \<and>
   c_str ''ca'' \<noteq> c_str [CHR ''c'', CHR ''a'', CHR ''r'', CHR 0x00, CHR ''z''] \<and>
   find_tst (fst (remove (inserts [(''cat'', 1::nat), (''car'', 2), (''ca'', 3)] tst_map_new) ''ca''))
     [CHR ''c'', CHR ''a'', CHR ''r'', CHR 0x00, CHR ''z''] = Some 2"
proof -
  let ?m = "inserts [(''cat'', 1::nat), (''car'', 2), (''ca'', 3)] tst_map_new"
  let ?k2 = "[CHR ''c'', CHR ''a'', CHR ''r'', CHR 0x00, CHR ''z'']"
  have i: "invar ?m" by (simp add: invar_insert invar_new)
  have f: "find_tst ?m ''ca'' = Some 3"
    by (simp add: find_tst_def insert_tst_def tst_map_new_def NUL_def)
  have f2: "find_tst ?m ?k2 = Some 2"
    by (simp add: find_tst_def insert_tst_def tst_map_new_def NUL_def)
  have ne: "c_str ''ca'' \<noteq> c_str ?k2" by (simp add: NUL_def)
  from remove_keeps_other_keys[of ?m "''ca''" 3 ?k2 2] i f f2 ne show ?thesis
    by blast
qed

text \<open>
  Two keys that differ only after a NUL are one key for \<^verbatim>\<open>find\<close> and \<^verbatim>\<open>remove\<close>: after
  \<^verbatim>\<open>insert("cat", 1)\<close>, \<^verbatim>\<open>find\<close> returns a handle for "cat" and for the five characters
  \<^verbatim>\<open>'c','a','t',NUL,'x'\<close>, and removing the second makes \<^verbatim>\<open>find("cat")\<close> return null.
\<close>

theorem remove_keeps_other_keys_counterexample:
  "[CHR ''c'', CHR ''a'', CHR ''t'', CHR 0x00, CHR ''x''] \<noteq> ''cat'' \<and>
   find_tst (inserts [(''cat'', 1::nat)] tst_map_new)
     [CHR ''c'', CHR ''a'', CHR ''t'', CHR 0x00, CHR ''x''] = Some 1 \<and>
   find_tst (inserts [(''cat'', 1::nat)] tst_map_new) ''cat'' = Some 1 \<and>
   snd (remove (inserts [(''cat'', 1::nat)] tst_map_new)
     [CHR ''c'', CHR ''a'', CHR ''t'', CHR 0x00, CHR ''x'']) = True \<and>
   find_tst (fst (remove (inserts [(''cat'', 1::nat)] tst_map_new)
     [CHR ''c'', CHR ''a'', CHR ''t'', CHR 0x00, CHR ''x''])) ''cat'' = None"
  by (simp add: find_tst_def remove_def insert_tst_def tst_map_new_def NUL_def)

subsection \<open>The output container is cleared\<close>

text \<open>
  Claim C10. In every container state and whatever the output container \<open>c\<close> holds
  before the call, \<^verbatim>\<open>sequence\<close>, \<^verbatim>\<open>pmsearch\<close> and \<^verbatim>\<open>nearsearch\<close> leave in it what they
  leave in an empty one: the pairs appended by this call, and nothing of \<open>c\<close>. The
  traversals themselves only append: run on \<open>c\<close> without the \<^verbatim>\<open>clear\<close>, each would leave
  \<open>c\<close> in front of these pairs.
\<close>

theorem output_cleared:
  "sequence m c = sequence m [] \<and>
   pmsearch m p c = pmsearch m p [] \<and>
   nearsearch m s d c = nearsearch m s d [] \<and>
   travel (root_m m) [] push_back c = c @ sequence m c \<and>
   pmsearch_aux (root_m m) (c_str p) [] c = c @ pmsearch m p c \<and>
   near_search (root_m m) (c_str s) d [] c = c @ nearsearch m s d c"
proof -
  have clear: "sequence m c = sequence m []" "pmsearch m p c = pmsearch m p []"
    "nearsearch m s d c = nearsearch m s d []"
    by (simp_all add: sequence_def pmsearch_def nearsearch_def clear_seq_def)
  have "travel (root_m m) [] push_back c = c @ entries (root_m m)"
    by (simp add: travel_entries fold_push_back)
  then have t: "travel (root_m m) [] push_back c = c @ sequence m c"
    by (simp add: sequence_entries)
  have "pmsearch_aux (root_m m) (c_str p) [] c = c @ pm_entries (root_m m) (c_str p)"
    by (simp add: pmsearch_aux_entries)
  then have p: "pmsearch_aux (root_m m) (c_str p) [] c = c @ pmsearch m p c"
    by (simp add: pmsearch_def clear_seq_def pmsearch_aux_entries)
  have "near_search (root_m m) (c_str s) d [] c = c @ near_entries (root_m m) (c_str s) d"
    by (simp add: near_search_entries)
  then have n: "near_search (root_m m) (c_str s) d [] c = c @ nearsearch m s d c"
    by (simp add: nearsearch_entries)
  from clear t p n show ?thesis by simp
qed

subsection \<open>Partial-match search\<close>

lemma pmsearch_entries: "pmsearch m p c = pm_entries (root_m m) (c_str p)"
  by (simp add: pmsearch_def clear_seq_def pmsearch_aux_entries)

text \<open>
  Claim C3, for patterns without NUL. In every container state and for every non-empty
  pattern \<open>p\<close> in which no character is NUL, \<^verbatim>\<open>pmsearch(p, out)\<close> leaves in \<open>out\<close> exactly
  the pairs of the container (as \<^verbatim>\<open>sequence\<close> enumerates them) whose key has the length of
  \<open>p\<close> and at every position the character of \<open>p\<close>, where \<open>p\<close> has a character other
  than \<^verbatim>\<open>'.'\<close>; no key occurs twice. In particular, on the container built from
  ("cat",1), ("car",2), ("cot",3), \<^verbatim>\<open>pmsearch("c.t", out)\<close> leaves ("cat",1) and ("cot",3).
\<close>

theorem pmsearch_exact:
  "(invar m \<and> p \<noteq> [] \<and> NUL \<notin> set p \<longrightarrow>
      set (pmsearch m p c) = set (filter (\<lambda>(k, v). pm_match p k) (sequence m [])) \<and>
      distinct (map fst (pmsearch m p c))) \<and>
   pmsearch (inserts [(''cat'', 1::nat), (''car'', 2), (''cot'', 3)] tst_map_new) ''c.t'' c
     = [(''cat'', 1), (''cot'', 3)]"
proof -
  have "set (pmsearch m p c) = set (filter (\<lambda>(k, v). pm_match p k) (sequence m [])) \<and>
      distinct (map fst (pmsearch m p c))"
    if i: "invar m" and p: "NUL \<notin> set p"
  proof -
    from i have ok: "tst_ok (root_m m)" by (simp add: invar_def)
    have "(k, v) \<in> set (pmsearch m p c) \<longleftrightarrow>
        (k, v) \<in> set (filter (\<lambda>(k, v). pm_match p k) (sequence m []))" for k v
      using p by (auto simp: pmsearch_entries pm_entries_find[OF ok] sequence_entries
          entries_find[OF ok] c_str_id)
    then have "set (pmsearch m p c) = set (filter (\<lambda>(k, v). pm_match p k) (sequence m []))"
      by (intro set_eqI) (simp only: split_paired_all)
    with ok show ?thesis by (simp add: pmsearch_entries pm_entries_distinct)
  qed
  moreover have "pmsearch (inserts [(''cat'', 1::nat), (''car'', 2), (''cot'', 3)] tst_map_new)
      ''c.t'' c = [(''cat'', 1), (''cot'', 3)]"
    by (simp add: pmsearch_def clear_seq_def insert_tst_def tst_map_new_def NUL_def)
  ultimately show ?thesis by blast
qed

theorem pmsearch_exact_witness:
  "invar (inserts [(''cat'', 1::nat), (''cot'', 3), (''car'', 2), (''coat'', 4)] tst_map_new) \<and>
   ''c.t'' \<noteq> [] \<and> NUL \<notin> set ''c.t'' \<and>
   set (pmsearch (inserts [(''cat'', 1::nat), (''cot'', 3), (''car'', 2), (''coat'', 4)] tst_map_new)
          ''c.t'' [(''dog'', 9)]) =
     {(''cat'', 1), (''cot'', 3)}"
proof -
  let ?m = "inserts [(''cat'', 1::nat), (''cot'', 3), (''car'', 2), (''coat'', 4)] tst_map_new"
  have i: "invar ?m" by (simp add: invar_insert invar_new)
  have n: "NUL \<notin> set ''c.t''" by (simp add: NUL_def)
  have s: "set (filter (\<lambda>(k, v). pm_match ''c.t'' k) (sequence ?m [])) = {(''cat'', 1), (''cot'', 3)}"
    by (simp add: sequence_def clear_seq_def push_back_def insert_tst_def tst_map_new_def NUL_def)
  from pmsearch_exact[of ?m "''c.t''" "[(''dog'', 9)]"] i n s show ?thesis
    by simp
qed

text \<open>
  A pattern with a NUL is cut there: for the container holding ("a",1), the pattern of the
  two characters \<^verbatim>\<open>'a'\<close> and NUL finds the key "a", of length 1.
\<close>

theorem pmsearch_exact_counterexample:
  "[CHR ''a'', CHR 0x00] \<noteq> [] \<and>
   pmsearch (inserts [(''a'', 1::nat)] tst_map_new) [CHR ''a'', CHR 0x00] [] = [(''a'', 1)] \<and>
   length ''a'' \<noteq> length [CHR ''a'', CHR 0x00] \<and>
   \<not> pm_match [CHR ''a'', CHR 0x00] ''a''"
  by (simp add: pmsearch_def clear_seq_def insert_tst_def tst_map_new_def NUL_def)

subsection \<open>The copy constructor\<close>

lemma copy_fold:
  "tst_map_copy st = fold (\<lambda>(k, v). insert_helper k v) (entries (root_m st)) tst_map_new"
  by (simp add: tst_map_copy_def foreach_def travel_entries)

lemma fold_insert_helper:
  assumes "distinct (map fst kvs)"
    and "\<And>k v. (k, v) \<in> set kvs \<Longrightarrow> k \<noteq> [] \<and> NUL \<notin> set k"
  shows "find_loop (root_m (fold (\<lambda>(k, v). insert_helper k v) kvs m)) s =
           (case map_of kvs s of Some v \<Rightarrow> Some v | None \<Rightarrow> find_loop (root_m m) s)"
  using assms
proof (induction kvs arbitrary: m)
  case Nil
  then show ?case by simp
next
  case (Cons kv kvs)
  obtain k v where kv: "kv = (k, v)" by (cases kv)
  from Cons.prems kv have k: "k \<noteq> []" "NUL \<notin> set k" "k \<notin> fst ` set kvs"
    by auto
  then have c: "c_str k = k" by (simp add: c_str_id)
  have "find_loop (root_m (fold (\<lambda>(k, v). insert_helper k v) kvs (insert_helper k v m))) s =
      (case map_of kvs s of Some v \<Rightarrow> Some v
       | None \<Rightarrow> find_loop (root_m (insert_helper k v m)) s)"
    using Cons.prems by (intro Cons.IH) auto
  moreover have "find_loop (root_m (insert_helper k v m)) s =
      (if s = k then Some v else find_loop (root_m m) s)"
    using k by (simp add: insert_helper_def root_insert_tst c find_insert_same find_insert_other)
  moreover have "s = k \<Longrightarrow> map_of kvs s = None"
    using k(3) by (simp add: map_of_eq_None_iff)
  ultimately show ?case by (auto simp: kv split: option.splits)
qed

lemma fold_insert_helper_size:
  assumes "distinct (map fst kvs)"
    and "\<And>k v. (k, v) \<in> set kvs \<Longrightarrow> k \<noteq> [] \<and> NUL \<notin> set k"
    and "\<And>k v. (k, v) \<in> set kvs \<Longrightarrow> find_loop (root_m m) k = None"
  shows "size_m (fold (\<lambda>(k, v). insert_helper k v) kvs m) = size_m m + length kvs"
  using assms
proof (induction kvs arbitrary: m)
  case Nil
  then show ?case by simp
next
  case (Cons kv kvs)
  obtain k v where kv: "kv = (k, v)" by (cases kv)
  from Cons.prems kv have k: "k \<noteq> []" "NUL \<notin> set k" "k \<notin> fst ` set kvs"
    and f: "find_loop (root_m m) k = None"
    by auto
  then have c: "c_str k = k" by (simp add: c_str_id)
  have other: "find_loop (root_m (insert_helper k v m)) k' = None"
    if "(k', v') \<in> set kvs" for k' v'
  proof -
    from that k(3) have "k' \<noteq> k" by force
    moreover from that Cons.prems(3) have "find_loop (root_m m) k' = None" by auto
    ultimately show ?thesis
      using k by (simp add: insert_helper_def root_insert_tst c find_insert_other)
  qed
  have "size_m (fold (\<lambda>(k, v). insert_helper k v) kvs (insert_helper k v m)) =
      size_m (insert_helper k v m) + length kvs"
    using Cons.prems(1,2) other by (intro Cons.IH) auto
  moreover have "size_m (insert_helper k v m) = size_m m + 1"
    using k f by (simp add: insert_helper_def size_insert_tst_eq c find_tst_def)
  ultimately show ?case by (simp add: kv)
qed

lemma fold_insert_helper_invar:
  "invar m \<Longrightarrow> invar (fold (\<lambda>(k, v). insert_helper k v) kvs m)"
  by (induction kvs arbitrary: m) (auto simp: insert_helper_def invar_insert)

lemma map_of_entries: "tst_ok p \<Longrightarrow> map_of (entries p) s = find_loop p s"
proof (cases "find_loop p s")
  case None
  assume "tst_ok p"
  with None show ?thesis
    by (auto simp: map_of_eq_None_iff entries_find)
next
  case (Some v)
  assume ok: "tst_ok p"
  with Some have "(s, v) \<in> set (entries p)" by (simp add: entries_find)
  with ok Some show ?thesis by (simp add: entries_distinct)
qed

lemma copy_same:
  assumes "invar st"
  shows "find_tst (tst_map_copy st) k = find_tst st k"
    and "size_m (tst_map_copy st) = size_m st"
    and "invar (tst_map_copy st)"
proof -
  from assms have ok: "tst_ok (root_m st)" and sz: "size_m st = payloads (root_m st)"
    by (simp_all add: invar_def)
  have d: "distinct (map fst (entries (root_m st)))" by (rule entries_distinct[OF ok])
  have n: "k \<noteq> [] \<and> NUL \<notin> set k" if "(k, v) \<in> set (entries (root_m st))" for k v
    using that find_loop_Some_nonul[OF ok, of k v] by (simp add: entries_find[OF ok])
  show "find_tst (tst_map_copy st) k = find_tst st k"
    using fold_insert_helper[OF d n, where m = tst_map_new and s = "c_str k"]
    by (simp add: find_tst_def copy_fold map_of_entries[OF ok] tst_map_new_def
        split: option.splits)
  show "size_m (tst_map_copy st) = size_m st"
    using fold_insert_helper_size[OF d n, where m = tst_map_new]
    by (simp add: copy_fold sz length_entries tst_map_new_def)
  show "invar (tst_map_copy st)"
    by (simp add: copy_fold fold_insert_helper_invar invar_new)
qed

subsection \<open>Near-neighbour search on trees\<close>

lemma near_entries_hd:
  "(k, v) \<in> set (near_entries p s d) \<Longrightarrow> k \<noteq> [] \<and> hd k \<in> level_chars p"
proof (induction p arbitrary: s d)
  case Null
  then show ?case by simp
next
  case (Node ch lo hi eq pd)
  then show ?case
    using Node.IH(1)[of s d] Node.IH(2)[of s d]
    by (auto simp: Let_def split: option.splits if_splits)
qed

lemma strlen_length: "strlen s = int (length s)"
  by (induction s) auto

lemma spec_cost_Nil [simp]: "spec_cost k [] = length k"
  by (cases k) auto

lemma near_entries_find:
  "tst_ok p \<Longrightarrow> NUL \<notin> set s \<Longrightarrow>
   (k, v) \<in> set (near_entries p s d) \<longleftrightarrow> find_loop p k = Some v \<and> int (spec_cost k s) \<le> d"
proof (induction p arbitrary: s d k)
  case Null
  then show ?case by simp
next
  case (Node ch lo hi eq pd)
  let ?n = "Node ch lo hi eq pd"
  have ok: "tst_ok lo" "tst_ok hi" "tst_ok eq" and nn: "ch \<noteq> NUL"
    using Node.prems by simp_all
  let ?s' = "if deref s \<noteq> NUL then tl s else s"
  let ?d' = "if \<not> deref s < ch \<and> \<not> ch < deref s then d else d - 1"
  have ns': "NUL \<notin> set ?s'" using Node.prems(2) by (cases s) auto
  note IH = Node.IH(1)[OF ok(1) Node.prems(2)] Node.IH(2)[OF ok(2) Node.prems(2)]
    Node.IH(3)[OF ok(3) ns']
  show ?case
  proof (cases "d < 0")
    case True
    then show ?thesis by simp
  next
    case d: False
    show ?thesis
    proof (cases k)
      case Nil
      have "find_loop ?n [] = None" by (rule find_loop_Nil[OF Node.prems(1)])
      then show ?thesis
        using near_entries_hd[of k v ?n s d] unfolding Nil
        by (auto simp del: find_loop.simps near_entries.simps)
    next
      case k: (Cons x xs)
      have lo: "(k, v) \<in> set (near_entries lo s d) \<Longrightarrow> x < ch"
        using near_entries_hd[of k v lo s d] Node.prems(1) k by auto
      have hi: "(k, v) \<in> set (near_entries hi s d) \<Longrightarrow> ch < x"
        using near_entries_hd[of k v hi s d] Node.prems(1) k by auto
      have eq: "(xs, v) \<in> set (near_entries eq ?s' ?d') \<Longrightarrow> xs \<noteq> []"
        using near_entries_hd[of xs v eq ?s' ?d'] by auto
      have eq0: "find_loop eq [] = None" by (rule find_loop_Nil[OF ok(3)])
      have mem: "(k, v) \<in> set (near_entries ?n s d) \<longleftrightarrow>
          ((d > 0 \<or> deref s < ch) \<and> (k, v) \<in> set (near_entries lo s d)) \<or>
          (x = ch \<and> (xs, v) \<in> set (near_entries eq ?s' ?d')) \<or>
          ((d > 0 \<or> ch < deref s) \<and> (k, v) \<in> set (near_entries hi s d)) \<or>
          (x = ch \<and> xs = [] \<and> pd = Some v \<and> strlen ?s' \<le> ?d')"
        using d by (auto simp: Let_def k split: option.splits)
      consider (less) "x < ch" | (equal) "x = ch" | (greater) "ch < x"
        by (cases x ch rule: linorder_cases) auto
      then show ?thesis
      proof cases
        case less
        have f: "find_loop ?n k = find_loop lo k" using less by (simp add: k)
        have c0: "int (spec_cost k s) \<le> d \<Longrightarrow> d > 0 \<or> deref s < ch"
          using less d by (cases s) (auto simp: k split: if_splits)
        show ?thesis unfolding mem f using less lo hi IH(1)[of k d] c0 by auto
      next
        case greater
        have f: "find_loop ?n k = find_loop hi k" using greater by (auto simp: k)
        have c0: "int (spec_cost k s) \<le> d \<Longrightarrow> d > 0 \<or> ch < deref s"
          using greater d by (cases s) (auto simp: k split: if_splits)
        show ?thesis unfolding mem f using greater lo hi IH(2)[of k d] c0 by auto
      next
        case equal
        have f: "find_loop ?n k = (if xs = [] then pd else find_loop eq xs)"
          using equal by (simp add: k)
        have c: "int (spec_cost k s) \<le> d \<longleftrightarrow> int (spec_cost xs ?s') \<le> ?d'"
          using equal nn Node.prems(2) by (cases s) (auto simp: k)
        have sl: "strlen ?s' = int (spec_cost [] ?s')" by (simp add: strlen_length)
        show ?thesis
        proof (cases "xs = []")
          case True
          then show ?thesis unfolding mem f c using equal lo hi eq sl by auto
        next
          case False
          then show ?thesis unfolding mem f c using equal lo hi IH(3)[of xs ?d'] by auto
        qed
      qed
    qed
  qed
qed

lemma nearsearch_exact:
  assumes "invar m" and "NUL \<notin> set s"
  shows "set (nearsearch m s d c) =
         set (filter (\<lambda>(k, v). int (spec_cost k s) \<le> d) (sequence m []))"
proof -
  from assms(1) have ok: "tst_ok (root_m m)" by (simp add: invar_def)
  have "(k, v) \<in> set (nearsearch m s d c) \<longleftrightarrow>
      (k, v) \<in> set (filter (\<lambda>(k, v). int (spec_cost k s) \<le> d) (sequence m []))" for k v
    using assms(2)
    by (auto simp: nearsearch_entries near_entries_find[OF ok] sequence_entries
        entries_find[OF ok] c_str_id)
  then show ?thesis by (intro set_eqI) (simp only: split_paired_all)
qed

subsection \<open>Near-neighbour search on the example of the specification\<close>

text \<open>
  Claim C2. For every container state that holds exactly the pairs ("cat",1), ("bat",2),
  ("cats",3) (as \<^verbatim>\<open>sequence\<close> enumerates them), \<^verbatim>\<open>nearsearch("cat", 1, out)\<close> leaves in
  \<open>out\<close> these three pairs and nothing else, and no key in \<open>out\<close> costs more than 1
  against "cat". On the container built by inserting the three pairs in this order, \<open>out\<close>
  is the list shown.
\<close>

theorem nearsearch_example:
  "(invar m \<and> set (sequence m []) = {(''cat'', 1::nat), (''bat'', 2), (''cats'', 3)} \<longrightarrow>
      set (nearsearch m ''cat'' 1 out) = {(''cat'', 1), (''bat'', 2), (''cats'', 3)} \<and>
      filter (\<lambda>(k, v). 1 < spec_cost k ''cat'') (nearsearch m ''cat'' 1 out) = []) \<and>
   nearsearch (inserts [(''cat'', 1::nat), (''bat'', 2), (''cats'', 3)] tst_map_new) ''cat'' 1 out
     = [(''bat'', 2), (''cats'', 3), (''cat'', 1)]"
proof -
  have "set (nearsearch m ''cat'' 1 out) = {(''cat'', 1), (''bat'', 2), (''cats'', 3)} \<and>
      filter (\<lambda>(k, v). 1 < spec_cost k ''cat'') (nearsearch m ''cat'' 1 out) = []"
    if i: "invar m" and s: "set (sequence m []) = {(''cat'', 1::nat), (''bat'', 2), (''cats'', 3)}"
  proof -
    have n: "NUL \<notin> set ''cat''" by (simp add: NUL_def)
    have e: "set (nearsearch m ''cat'' 1 out) =
        {(k, v). (k, v) \<in> set (sequence m []) \<and> int (spec_cost k ''cat'') \<le> 1}"
      using nearsearch_exact[OF i n, of 1 out] by auto
    have "set (nearsearch m ''cat'' 1 out) = {(''cat'', 1), (''bat'', 2), (''cats'', 3)}"
      unfolding e s by auto
    moreover have "\<forall>(k, v)\<in>set (nearsearch m ''cat'' 1 out). \<not> 1 < spec_cost k ''cat''"
      unfolding e by auto
    then have "filter (\<lambda>(k, v). 1 < spec_cost k ''cat'') (nearsearch m ''cat'' 1 out) = []"
      by (auto simp: filter_empty_conv)
    ultimately show ?thesis by simp
  qed
  moreover have "nearsearch (inserts [(''cat'', 1::nat), (''bat'', 2), (''cats'', 3)] tst_map_new)
      ''cat'' 1 out = [(''bat'', 2), (''cats'', 3), (''cat'', 1)]"
    by (simp add: nearsearch_def clear_seq_def insert_tst_def tst_map_new_def new_tnode_def
        NUL_def Let_def)
  ultimately show ?thesis by blast
qed

theorem nearsearch_example_witness:
  "invar (fst (remove (inserts [(''cats'', 3::nat), (''dog'', 9), (''bat'', 2), (''cat'', 1)]
            tst_map_new) ''dog'')) \<and>
   set (sequence (fst (remove (inserts [(''cats'', 3::nat), (''dog'', 9), (''bat'', 2), (''cat'', 1)]
            tst_map_new) ''dog'')) []) = {(''cat'', 1), (''bat'', 2), (''cats'', 3)} \<and>
   set (nearsearch (fst (remove (inserts [(''cats'', 3::nat), (''dog'', 9), (''bat'', 2), (''cat'', 1)]
            tst_map_new) ''dog'')) ''cat'' 1 [(''junk'', 0)]) =
     {(''cat'', 1), (''bat'', 2), (''cats'', 3)}"
proof -
  let ?m = "fst (remove (inserts [(''cats'', 3::nat), (''dog'', 9), (''bat'', 2), (''cat'', 1)]
            tst_map_new) ''dog'')"
  have i: "invar ?m" by (simp add: invar_insert invar_new invar_remove)
  have s: "set (sequence ?m []) = {(''cat'', 1), (''bat'', 2), (''cats'', 3)}"
    by (simp add: sequence_def clear_seq_def push_back_def remove_def insert_tst_def
        tst_map_new_def NUL_def insert_commute)
  from nearsearch_example[of ?m "[(''junk'', 0)]"] i s show ?thesis by blast
qed

section \<open>The store refines the trees\<close>

lemma rep_frame:
  "rep c p t \<Longrightarrow> (\<And>a. a \<in> foot c p t \<Longrightarrow> c' a = c a) \<Longrightarrow>
   rep c' p t \<and> foot c' p t = foot c p t"
proof (induction t arbitrary: p)
  case Null
  then show ?case by simp
next
  case (Node ch lo hi eq pd)
  from Node.prems(1) obtain a n where p: "p = Some a" and n: "c a = Some n"
    by (auto split: option.splits)
  from Node.prems(2) p n have n': "c' a = Some n" by simp
  from Node.prems(1) p n have r: "rep c (h_lokid n) lo" "rep c (h_hikid n) hi" "rep c (h_eqkid n) eq"
    by simp_all
  have "rep c' (h_lokid n) lo \<and> foot c' (h_lokid n) lo = foot c (h_lokid n) lo"
    using Node.prems(2) p n by (intro Node.IH(1)[OF r(1)]) simp
  moreover have "rep c' (h_hikid n) hi \<and> foot c' (h_hikid n) hi = foot c (h_hikid n) hi"
    using Node.prems(2) p n by (intro Node.IH(2)[OF r(2)]) simp
  moreover have "rep c' (h_eqkid n) eq \<and> foot c' (h_eqkid n) eq = foot c (h_eqkid n) eq"
    using Node.prems(2) p n by (intro Node.IH(3)[OF r(3)]) simp
  ultimately show ?case using Node.prems(1) p n n' by simp
qed

lemma h_find_refines:
  "rep (cells h) p t \<Longrightarrow> h_find_loop h p s = Some (find_loop t s)"
proof (induction t arbitrary: p s)
  case Null
  then show ?case by (simp add: h_find_loop.simps)
next
  case (Node ch lo hi eq pd)
  from Node.prems obtain a n where p: "p = Some a" and n: "cells h a = Some n"
    by (auto split: option.splits)
  from Node.prems p n have r: "rep (cells h) (h_lokid n) lo" "rep (cells h) (h_hikid n) hi"
    "rep (cells h) (h_eqkid n) eq" and f: "h_splitchar n = ch" "h_pdata n = pd"
    by simp_all
  show ?case
    by (subst h_find_loop.simps) (simp add: p n f Node.IH(1)[OF r(1)] Node.IH(2)[OF r(2)]
        Node.IH(3)[OF r(3)])
qed

lemma h_store_Some:
  "cells h a = Some n \<Longrightarrow> h_store h a f = Some (h\<lparr>cells := (cells h)(a \<mapsto> f n)\<rparr>)"
  by (simp add: h_store_def)

lemma h_remove_refines:
  "rep (cells h) p t \<Longrightarrow>
   \<exists>h'. h_remove_loop h p s sz = Some (h', snd (remove_loop t s sz)) \<and>
        rep (cells h') p (fst (remove_loop t s sz)) \<and>
        foot (cells h') p (fst (remove_loop t s sz)) = foot (cells h) p t \<and>
        next_free h' = next_free h \<and>
        (\<forall>a. a \<notin> foot (cells h) p t \<longrightarrow> cells h' a = cells h a)"
proof (induction t arbitrary: p s)
  case Null
  then show ?case by (simp add: h_remove_loop.simps)
next
  case (Node ch lo hi eq pd)
  from Node.prems obtain a n where p: "p = Some a" and n: "cells h a = Some n"
    by (auto split: option.splits)
  let ?pl = "h_lokid n" and ?ph = "h_hikid n" and ?pe = "h_eqkid n"
  from Node.prems p n have r: "rep (cells h) ?pl lo" "rep (cells h) ?ph hi" "rep (cells h) ?pe eq"
    and f: "h_splitchar n = ch" "h_pdata n = pd"
    and d: "a \<notin> foot (cells h) ?pl lo" "a \<notin> foot (cells h) ?ph hi" "a \<notin> foot (cells h) ?pe eq"
      "foot (cells h) ?pl lo \<inter> foot (cells h) ?ph hi = {}"
      "foot (cells h) ?pl lo \<inter> foot (cells h) ?pe eq = {}"
      "foot (cells h) ?ph hi \<inter> foot (cells h) ?pe eq = {}"
    by simp_all
  have ft: "foot (cells h) p (Node ch lo hi eq pd) =
      insert a (foot (cells h) ?pl lo \<union> foot (cells h) ?ph hi \<union> foot (cells h) ?pe eq)"
    by (simp add: p n)
  consider (lo) "deref s < ch"
    | (self) "\<not> deref s < ch" "\<not> ch < deref s" "tl s = []" "pd \<noteq> None"
    | (eq) "\<not> deref s < ch" "\<not> ch < deref s" "\<not> (tl s = [] \<and> pd \<noteq> None)"
    | (hi) "\<not> deref s < ch" "ch < deref s"
    by blast
  then show ?case
  proof cases
    case lo
    from Node.IH(1)[OF r(1), of s] obtain h' where
      h': "h_remove_loop h ?pl s sz = Some (h', snd (remove_loop lo s sz))"
      "rep (cells h') ?pl (fst (remove_loop lo s sz))"
      "foot (cells h') ?pl (fst (remove_loop lo s sz)) = foot (cells h) ?pl lo"
      "next_free h' = next_free h"
      "\<And>b. b \<notin> foot (cells h) ?pl lo \<Longrightarrow> cells h' b = cells h b"
      by blast
    have c: "cells h' a = Some n" using h'(5)[OF d(1)] n by simp
    have rh: "rep (cells h') ?ph hi \<and> foot (cells h') ?ph hi = foot (cells h) ?ph hi"
      using d h'(5) by (intro rep_frame[OF r(2)]) blast
    have re: "rep (cells h') ?pe eq \<and> foot (cells h') ?pe eq = foot (cells h) ?pe eq"
      using d h'(5) by (intro rep_frame[OF r(3)]) blast
    have "h_remove_loop h p s sz = Some (h', snd (remove_loop (Node ch lo hi eq pd) s sz))"
      using lo h'(1) by (subst h_remove_loop.simps) (simp add: p n f case_prod_beta)
    moreover have "rep (cells h') p (fst (remove_loop (Node ch lo hi eq pd) s sz))"
      using lo h'(2,3) rh re d f by (simp add: p c case_prod_beta)
    moreover have "foot (cells h') p (fst (remove_loop (Node ch lo hi eq pd) s sz)) =
        foot (cells h) p (Node ch lo hi eq pd)"
      using lo h'(3) rh re by (simp add: p c n case_prod_beta)
    moreover have "\<forall>b. b \<notin> foot (cells h) p (Node ch lo hi eq pd) \<longrightarrow> cells h' b = cells h b"
      using h'(5) by (simp add: p n)
    ultimately show ?thesis using h'(4) by blast
  next
    case hi
    from Node.IH(2)[OF r(2), of s] obtain h' where
      h': "h_remove_loop h ?ph s sz = Some (h', snd (remove_loop hi s sz))"
      "rep (cells h') ?ph (fst (remove_loop hi s sz))"
      "foot (cells h') ?ph (fst (remove_loop hi s sz)) = foot (cells h) ?ph hi"
      "next_free h' = next_free h"
      "\<And>b. b \<notin> foot (cells h) ?ph hi \<Longrightarrow> cells h' b = cells h b"
      by blast
    have c: "cells h' a = Some n" using h'(5)[OF d(2)] n by simp
    have rl: "rep (cells h') ?pl lo \<and> foot (cells h') ?pl lo = foot (cells h) ?pl lo"
      using d h'(5) by (intro rep_frame[OF r(1)]) blast
    have re: "rep (cells h') ?pe eq \<and> foot (cells h') ?pe eq = foot (cells h) ?pe eq"
      using d h'(5) by (intro rep_frame[OF r(3)]) blast
    have "h_remove_loop h p s sz = Some (h', snd (remove_loop (Node ch lo hi eq pd) s sz))"
      using hi h'(1) by (subst h_remove_loop.simps) (simp add: p n f case_prod_beta)
    moreover have "rep (cells h') p (fst (remove_loop (Node ch lo hi eq pd) s sz))"
      using hi h'(2,3) rl re d f by (simp add: p c case_prod_beta)
    moreover have "foot (cells h') p (fst (remove_loop (Node ch lo hi eq pd) s sz)) =
        foot (cells h) p (Node ch lo hi eq pd)"
      using hi h'(3) rl re by (simp add: p c n case_prod_beta)
    moreover have "\<forall>b. b \<notin> foot (cells h) p (Node ch lo hi eq pd) \<longrightarrow> cells h' b = cells h b"
      using h'(5) by (simp add: p n)
    ultimately show ?thesis using h'(4) by blast
  next
    case eq
    from Node.IH(3)[OF r(3), of "tl s"] obtain h' where
      h': "h_remove_loop h ?pe (tl s) sz = Some (h', snd (remove_loop eq (tl s) sz))"
      "rep (cells h') ?pe (fst (remove_loop eq (tl s) sz))"
      "foot (cells h') ?pe (fst (remove_loop eq (tl s) sz)) = foot (cells h) ?pe eq"
      "next_free h' = next_free h"
      "\<And>b. b \<notin> foot (cells h) ?pe eq \<Longrightarrow> cells h' b = cells h b"
      by blast
    have c: "cells h' a = Some n" using h'(5)[OF d(3)] n by simp
    have rl: "rep (cells h') ?pl lo \<and> foot (cells h') ?pl lo = foot (cells h) ?pl lo"
      using d h'(5) by (intro rep_frame[OF r(1)]) blast
    have rh: "rep (cells h') ?ph hi \<and> foot (cells h') ?ph hi = foot (cells h) ?ph hi"
      using d h'(5) by (intro rep_frame[OF r(2)]) blast
    have "h_remove_loop h p s sz = Some (h', snd (remove_loop (Node ch lo hi eq pd) s sz))"
      using eq h'(1) by (subst h_remove_loop.simps) (auto simp add: p n f case_prod_beta)
    moreover have "rep (cells h') p (fst (remove_loop (Node ch lo hi eq pd) s sz))"
      using eq h'(2,3) rl rh d f by (auto simp add: p c case_prod_beta)
    moreover have "foot (cells h') p (fst (remove_loop (Node ch lo hi eq pd) s sz)) =
        foot (cells h) p (Node ch lo hi eq pd)"
      using eq h'(3) rl rh by (auto simp add: p c n case_prod_beta)
    moreover have "\<forall>b. b \<notin> foot (cells h) p (Node ch lo hi eq pd) \<longrightarrow> cells h' b = cells h b"
      using h'(5) by (simp add: p n)
    ultimately show ?thesis using h'(4) by blast
  next
    case self
    let ?h' = "h\<lparr>cells := (cells h)(a \<mapsto> n\<lparr>h_pdata := None\<rparr>)\<rparr>"
    have fr: "\<And>b. b \<noteq> a \<Longrightarrow> cells ?h' b = cells h b" by simp
    have rl: "rep (cells ?h') ?pl lo \<and> foot (cells ?h') ?pl lo = foot (cells h) ?pl lo"
      using d by (intro rep_frame[OF r(1)]) auto
    have rh: "rep (cells ?h') ?ph hi \<and> foot (cells ?h') ?ph hi = foot (cells h) ?ph hi"
      using d by (intro rep_frame[OF r(2)]) auto
    have re: "rep (cells ?h') ?pe eq \<and> foot (cells ?h') ?pe eq = foot (cells h) ?pe eq"
      using d by (intro rep_frame[OF r(3)]) auto
    have "h_remove_loop h p s sz = Some (?h', snd (remove_loop (Node ch lo hi eq pd) s sz))"
      using self by (subst h_remove_loop.simps) (simp add: p n f h_store_Some[OF n])
    moreover have "rep (cells ?h') p (fst (remove_loop (Node ch lo hi eq pd) s sz))"
      using self rl rh re d f by (simp add: p)
    moreover have "foot (cells ?h') p (fst (remove_loop (Node ch lo hi eq pd) s sz)) =
        foot (cells h) p (Node ch lo hi eq pd)"
      using self rl rh re by (simp add: p n)
    moreover have "\<forall>b. b \<notin> foot (cells h) p (Node ch lo hi eq pd) \<longrightarrow> cells ?h' b = cells h b"
      by (simp add: p n)
    moreover have "next_free ?h' = next_free h" by simp
    ultimately show ?thesis by blast
  qed
qed

lemma h_insert_aux_None:
  "h_insert_aux h None (c # cs) v sz pos =
   h_insert_aux (fst (h_new_tnode h c)) (Some (snd (h_new_tnode h c))) (c # cs) v sz pos"
  by (rule trans[OF h_insert_aux.simps], rule trans[OF _ h_insert_aux.simps[symmetric]])
     (simp add: case_prod_beta)

lemma h_insert_refines:
  "rep (cells h) p t \<Longrightarrow> foot (cells h) p t \<subseteq> {..<next_free h} \<Longrightarrow>
   \<exists>h' p'. h_insert_aux h p s v sz pos = Some (h', p', snd (insert_aux t s v sz pos)) \<and>
     rep (cells h') p' (fst (insert_aux t s v sz pos)) \<and>
     foot (cells h') p' (fst (insert_aux t s v sz pos))
       \<subseteq> foot (cells h) p t \<union> {next_free h..<next_free h'} \<and>
     next_free h \<le> next_free h' \<and>
     (\<forall>b. b < next_free h \<longrightarrow> b \<notin> foot (cells h) p t \<longrightarrow> cells h' b = cells h b)"
proof (induction t s v sz pos arbitrary: h p rule: insert_aux.induct)
  case (1 t v sz pos)
  then show ?case by (subst h_insert_aux.simps) simp
next
  case (2 c cs v sz pos)
  let ?h1 = "fst (h_new_tnode h c)" and ?a = "snd (h_new_tnode h c)"
  have a: "?a = next_free h" and n1: "next_free ?h1 = next_free h + 1"
    and c1: "cells ?h1 = (cells h)(next_free h \<mapsto>
      \<lparr>h_splitchar = c, h_lokid = None, h_hikid = None, h_eqkid = None, h_pdata = None\<rparr>)"
    by (simp_all add: h_new_tnode_def)
  have r1: "rep (cells ?h1) (Some ?a) (new_tnode c)"
    by (simp add: a c1 new_tnode_def)
  have f1: "foot (cells ?h1) (Some ?a) (new_tnode c) = {next_free h}"
    by (simp add: a c1 new_tnode_def)
  then have b1: "foot (cells ?h1) (Some ?a) (new_tnode c) \<subseteq> {..<next_free ?h1}"
    by (simp add: n1)
  from "2.IH"[OF r1 b1] obtain h' p' where
    h': "h_insert_aux ?h1 (Some ?a) (c # cs) v sz pos =
          Some (h', p', snd (insert_aux (new_tnode c) (c # cs) v sz pos))"
      "rep (cells h') p' (fst (insert_aux (new_tnode c) (c # cs) v sz pos))"
      "foot (cells h') p' (fst (insert_aux (new_tnode c) (c # cs) v sz pos))
         \<subseteq> foot (cells ?h1) (Some ?a) (new_tnode c) \<union> {next_free ?h1..<next_free h'}"
      "next_free ?h1 \<le> next_free h'"
      "\<And>b. b < next_free ?h1 \<Longrightarrow> b \<notin> foot (cells ?h1) (Some ?a) (new_tnode c) \<Longrightarrow>
         cells h' b = cells ?h1 b"
    by blast
  from "2.prems"(1) have p: "p = None" by simp
  have t: "insert_aux Null (c # cs) v sz pos = insert_aux (new_tnode c) (c # cs) v sz pos"
    by (simp add: insert_aux.simps(2))
  have "h_insert_aux h p (c # cs) v sz pos =
      Some (h', p', snd (insert_aux Null (c # cs) v sz pos))"
    using h'(1) by (simp only: p t h_insert_aux_None)
  moreover have "rep (cells h') p' (fst (insert_aux Null (c # cs) v sz pos))"
    using h'(2) by (simp only: t)
  moreover have "foot (cells h') p' (fst (insert_aux Null (c # cs) v sz pos))
      \<subseteq> foot (cells h) p Null \<union> {next_free h..<next_free h'}"
    using h'(3,4) unfolding t f1 n1 by auto
  moreover have "next_free h \<le> next_free h'" using h'(4) n1 by simp
  moreover have "\<forall>b. b < next_free h \<longrightarrow> b \<notin> foot (cells h) p Null \<longrightarrow> cells h' b = cells h b"
  proof (intro allI impI)
    fix b assume b: "b < next_free h"
    then have "cells h' b = cells ?h1 b" by (intro h'(5)) (simp_all add: n1 f1)
    with b show "cells h' b = cells h b" by (simp add: c1)
  qed
  ultimately show ?case by blast
next
  case (3 ch lo hi eq pd c cs v sz pos)
  let ?t = "Node ch lo hi eq pd" and ?s = "c # cs" and ?N = "next_free h"
  from "3.prems"(1) obtain a n where p: "p = Some a" and n: "cells h a = Some n"
    by (auto split: option.splits)
  let ?pl = "h_lokid n" and ?ph = "h_hikid n" and ?pe = "h_eqkid n"
  let ?Fl = "foot (cells h) ?pl lo" and ?Fh = "foot (cells h) ?ph hi"
    and ?Fe = "foot (cells h) ?pe eq"
  from "3.prems"(1) p n have r: "rep (cells h) ?pl lo" "rep (cells h) ?ph hi" "rep (cells h) ?pe eq"
    and f: "h_splitchar n = ch" "h_pdata n = pd"
    and d: "a \<notin> ?Fl" "a \<notin> ?Fh" "a \<notin> ?Fe" "?Fl \<inter> ?Fh = {}" "?Fl \<inter> ?Fe = {}" "?Fh \<inter> ?Fe = {}"
    by simp_all
  have ft: "foot (cells h) p ?t = insert a (?Fl \<union> ?Fh \<union> ?Fe)"
    by (simp add: p n)
  with "3.prems"(2) have b: "a < ?N" "?Fl \<subseteq> {..<?N}" "?Fh \<subseteq> {..<?N}" "?Fe \<subseteq> {..<?N}"
    by auto
  have il: "x < ?N \<and> x \<notin> ?Fh \<and> x \<notin> ?Fe \<and> x \<noteq> a" if "x \<in> ?Fl" for x
    using that b d by blast
  have ih: "x < ?N \<and> x \<notin> ?Fl \<and> x \<notin> ?Fe \<and> x \<noteq> a" if "x \<in> ?Fh" for x
    using that b d by blast
  have ie: "x < ?N \<and> x \<notin> ?Fl \<and> x \<notin> ?Fh \<and> x \<noteq> a" if "x \<in> ?Fe" for x
    using that b d by blast
  consider (lo) "c < ch"
    | (self) "\<not> c < ch" "\<not> ch < c" "cs = []"
    | (eq) "\<not> c < ch" "\<not> ch < c" "cs \<noteq> []"
    | (hi) "\<not> c < ch" "ch < c"
    by blast
  then show ?case
  proof cases
    case lo
    let ?r = "insert_aux lo ?s v sz pos"
    from "3.IH"(1)[OF lo r(1) b(2)] obtain h1 l where
      h1: "h_insert_aux h ?pl ?s v sz pos = Some (h1, l, snd ?r)"
        "rep (cells h1) l (fst ?r)"
        "foot (cells h1) l (fst ?r) \<subseteq> ?Fl \<union> {?N..<next_free h1}"
        "?N \<le> next_free h1"
        "\<And>b. b < ?N \<Longrightarrow> b \<notin> ?Fl \<Longrightarrow> cells h1 b = cells h b"
      by blast
    have res: "insert_aux ?t ?s v sz pos = (Node ch (fst ?r) hi eq pd, snd ?r)"
      using lo by (simp add: case_prod_beta)
    have ca: "cells h1 a = Some n" using h1(5)[OF b(1) d(1)] n by simp
    let ?h2 = "h1\<lparr>cells := (cells h1)(a \<mapsto> n\<lparr>h_lokid := l\<rparr>)\<rparr>"
    have inf: "x \<in> ?Fl \<or> (?N \<le> x \<and> x < next_free h1)"
      if "x \<in> foot (cells h1) l (fst ?r)" for x
      using subsetD[OF h1(3) that] by simp
    have an: "a \<notin> foot (cells h1) l (fst ?r)" using inf[of a] d(1) b(1) by auto
    have dj: "x \<notin> ?Fh \<and> x \<notin> ?Fe" if "x \<in> foot (cells h1) l (fst ?r)" for x
    proof -
      from inf[OF that] show ?thesis
      proof
        assume "x \<in> ?Fl"
        then show ?thesis using il[of x] ih[of x] ie[of x] by blast
      next
        assume "?N \<le> x \<and> x < next_free h1"
        then have "\<not> x < ?N" by simp
        then show ?thesis using il[of x] ih[of x] ie[of x] by blast
      qed
    qed
    have rn: "rep (cells ?h2) l (fst ?r) \<and> foot (cells ?h2) l (fst ?r) = foot (cells h1) l (fst ?r)"
      using an by (intro rep_frame[OF h1(2)]) auto
    have r1: "rep (cells ?h2) ?ph hi \<and> foot (cells ?h2) ?ph hi = ?Fh"
      using ih h1(5) by (intro rep_frame[OF r(2)]) simp
    have r2: "rep (cells ?h2) ?pe eq \<and> foot (cells ?h2) ?pe eq = ?Fe"
      using ie h1(5) by (intro rep_frame[OF r(3)]) simp
    have dj': "foot (cells h1) l (fst ?r) \<inter> ?Fh = {}" "foot (cells h1) l (fst ?r) \<inter> ?Fe = {}"
      "?Fh \<inter> foot (cells h1) l (fst ?r) = {}" "?Fe \<inter> foot (cells h1) l (fst ?r) = {}"
      using dj by blast+
    have c2: "cells ?h2 a = Some (n\<lparr>h_lokid := l\<rparr>)" by simp
    have "h_insert_aux h p ?s v sz pos = Some (?h2, Some a, snd (insert_aux ?t ?s v sz pos))"
      using lo h1(1) unfolding res
      by (subst h_insert_aux.simps) (simp add: p n f h_store_Some[OF ca])
    moreover have "rep (cells ?h2) (Some a) (fst (insert_aux ?t ?s v sz pos))"
      unfolding res fst_conv rep.simps option.case c2
      using rn r1 r2 d f an dj' by simp
    moreover have "foot (cells ?h2) (Some a) (fst (insert_aux ?t ?s v sz pos))
        \<subseteq> foot (cells h) p ?t \<union> {?N..<next_free ?h2}"
    proof -
      have e: "foot (cells ?h2) (Some a) (fst (insert_aux ?t ?s v sz pos)) =
          insert a (foot (cells h1) l (fst ?r) \<union> ?Fh \<union> ?Fe)"
        unfolding res fst_conv foot.simps option.case c2 using rn r1 r2 by auto
      have nf: "next_free ?h2 = next_free h1" by simp
      show ?thesis unfolding e ft nf using h1(3) by blast
    qed
    moreover have "?N \<le> next_free ?h2" using h1(4) by simp
    moreover have "\<forall>b. b < ?N \<longrightarrow> b \<notin> foot (cells h) p ?t \<longrightarrow> cells ?h2 b = cells h b"
      unfolding ft using h1(5) by simp
    ultimately show ?thesis by blast
  next
    case hi
    let ?r = "insert_aux hi ?s v sz pos"
    from "3.IH"(3)[OF hi(1) _ r(2) b(3)] hi obtain h1 l where
      h1: "h_insert_aux h ?ph ?s v sz pos = Some (h1, l, snd ?r)"
        "rep (cells h1) l (fst ?r)"
        "foot (cells h1) l (fst ?r) \<subseteq> ?Fh \<union> {?N..<next_free h1}"
        "?N \<le> next_free h1"
        "\<And>b. b < ?N \<Longrightarrow> b \<notin> ?Fh \<Longrightarrow> cells h1 b = cells h b"
      by blast
    have res: "insert_aux ?t ?s v sz pos = (Node ch lo (fst ?r) eq pd, snd ?r)"
      using hi by (simp add: case_prod_beta)
    have ca: "cells h1 a = Some n" using h1(5)[OF b(1) d(2)] n by simp
    let ?h2 = "h1\<lparr>cells := (cells h1)(a \<mapsto> n\<lparr>h_hikid := l\<rparr>)\<rparr>"
    have inf: "x \<in> ?Fh \<or> (?N \<le> x \<and> x < next_free h1)"
      if "x \<in> foot (cells h1) l (fst ?r)" for x
      using subsetD[OF h1(3) that] by simp
    have an: "a \<notin> foot (cells h1) l (fst ?r)" using inf[of a] d(2) b(1) by auto
    have dj: "x \<notin> ?Fl \<and> x \<notin> ?Fe" if "x \<in> foot (cells h1) l (fst ?r)" for x
    proof -
      from inf[OF that] show ?thesis
      proof
        assume "x \<in> ?Fh"
        then show ?thesis using il[of x] ih[of x] ie[of x] by blast
      next
        assume "?N \<le> x \<and> x < next_free h1"
        then have "\<not> x < ?N" by simp
        then show ?thesis using il[of x] ih[of x] ie[of x] by blast
      qed
    qed
    have rn: "rep (cells ?h2) l (fst ?r) \<and> foot (cells ?h2) l (fst ?r) = foot (cells h1) l (fst ?r)"
      using an by (intro rep_frame[OF h1(2)]) auto
    have r1: "rep (cells ?h2) ?pl lo \<and> foot (cells ?h2) ?pl lo = ?Fl"
      using il h1(5) by (intro rep_frame[OF r(1)]) simp
    have r2: "rep (cells ?h2) ?pe eq \<and> foot (cells ?h2) ?pe eq = ?Fe"
      using ie h1(5) by (intro rep_frame[OF r(3)]) simp
    have dj': "foot (cells h1) l (fst ?r) \<inter> ?Fl = {}" "foot (cells h1) l (fst ?r) \<inter> ?Fe = {}"
      "?Fl \<inter> foot (cells h1) l (fst ?r) = {}" "?Fe \<inter> foot (cells h1) l (fst ?r) = {}"
      using dj by blast+
    have c2: "cells ?h2 a = Some (n\<lparr>h_hikid := l\<rparr>)" by simp
    have "h_insert_aux h p ?s v sz pos = Some (?h2, Some a, snd (insert_aux ?t ?s v sz pos))"
      using hi h1(1) unfolding res
      by (subst h_insert_aux.simps) (simp add: p n f h_store_Some[OF ca])
    moreover have "rep (cells ?h2) (Some a) (fst (insert_aux ?t ?s v sz pos))"
      unfolding res fst_conv rep.simps option.case c2
      using rn r1 r2 d f an dj' by simp
    moreover have "foot (cells ?h2) (Some a) (fst (insert_aux ?t ?s v sz pos))
        \<subseteq> foot (cells h) p ?t \<union> {?N..<next_free ?h2}"
    proof -
      have e: "foot (cells ?h2) (Some a) (fst (insert_aux ?t ?s v sz pos)) =
          insert a (foot (cells h1) l (fst ?r) \<union> ?Fl \<union> ?Fe)"
        unfolding res fst_conv foot.simps option.case c2 using rn r1 r2 by auto
      have nf: "next_free ?h2 = next_free h1" by simp
      show ?thesis unfolding e ft nf using h1(3) by blast
    qed
    moreover have "?N \<le> next_free ?h2" using h1(4) by simp
    moreover have "\<forall>b. b < ?N \<longrightarrow> b \<notin> foot (cells h) p ?t \<longrightarrow> cells ?h2 b = cells h b"
      unfolding ft using h1(5) by simp
    ultimately show ?thesis by blast
  next
    case eq
    let ?r = "insert_aux eq cs v sz pos"
    from "3.IH"(2)[OF eq(1) _ eq(3) r(3) b(4)] eq obtain h1 l where
      h1: "h_insert_aux h ?pe cs v sz pos = Some (h1, l, snd ?r)"
        "rep (cells h1) l (fst ?r)"
        "foot (cells h1) l (fst ?r) \<subseteq> ?Fe \<union> {?N..<next_free h1}"
        "?N \<le> next_free h1"
        "\<And>b. b < ?N \<Longrightarrow> b \<notin> ?Fe \<Longrightarrow> cells h1 b = cells h b"
      by blast
    have res: "insert_aux ?t ?s v sz pos = (Node ch lo hi (fst ?r) pd, snd ?r)"
      using eq by (simp add: case_prod_beta)
    have ca: "cells h1 a = Some n" using h1(5)[OF b(1) d(3)] n by simp
    let ?h2 = "h1\<lparr>cells := (cells h1)(a \<mapsto> n\<lparr>h_eqkid := l\<rparr>)\<rparr>"
    have inf: "x \<in> ?Fe \<or> (?N \<le> x \<and> x < next_free h1)"
      if "x \<in> foot (cells h1) l (fst ?r)" for x
      using subsetD[OF h1(3) that] by simp
    have an: "a \<notin> foot (cells h1) l (fst ?r)" using inf[of a] d(3) b(1) by auto
    have dj: "x \<notin> ?Fl \<and> x \<notin> ?Fh" if "x \<in> foot (cells h1) l (fst ?r)" for x
    proof -
      from inf[OF that] show ?thesis
      proof
        assume "x \<in> ?Fe"
        then show ?thesis using il[of x] ih[of x] ie[of x] by blast
      next
        assume "?N \<le> x \<and> x < next_free h1"
        then have "\<not> x < ?N" by simp
        then show ?thesis using il[of x] ih[of x] ie[of x] by blast
      qed
    qed
    have rn: "rep (cells ?h2) l (fst ?r) \<and> foot (cells ?h2) l (fst ?r) = foot (cells h1) l (fst ?r)"
      using an by (intro rep_frame[OF h1(2)]) auto
    have r1: "rep (cells ?h2) ?pl lo \<and> foot (cells ?h2) ?pl lo = ?Fl"
      using il h1(5) by (intro rep_frame[OF r(1)]) simp
    have r2: "rep (cells ?h2) ?ph hi \<and> foot (cells ?h2) ?ph hi = ?Fh"
      using ih h1(5) by (intro rep_frame[OF r(2)]) simp
    have dj': "foot (cells h1) l (fst ?r) \<inter> ?Fl = {}" "foot (cells h1) l (fst ?r) \<inter> ?Fh = {}"
      "?Fl \<inter> foot (cells h1) l (fst ?r) = {}" "?Fh \<inter> foot (cells h1) l (fst ?r) = {}"
      using dj by blast+
    have c2: "cells ?h2 a = Some (n\<lparr>h_eqkid := l\<rparr>)" by simp
    have "h_insert_aux h p ?s v sz pos = Some (?h2, Some a, snd (insert_aux ?t ?s v sz pos))"
      using eq h1(1) unfolding res
      by (subst h_insert_aux.simps) (simp add: p n f h_store_Some[OF ca])
    moreover have "rep (cells ?h2) (Some a) (fst (insert_aux ?t ?s v sz pos))"
      unfolding res fst_conv rep.simps option.case c2
      using rn r1 r2 d f an dj' by simp
    moreover have "foot (cells ?h2) (Some a) (fst (insert_aux ?t ?s v sz pos))
        \<subseteq> foot (cells h) p ?t \<union> {?N..<next_free ?h2}"
    proof -
      have e: "foot (cells ?h2) (Some a) (fst (insert_aux ?t ?s v sz pos)) =
          insert a (foot (cells h1) l (fst ?r) \<union> ?Fl \<union> ?Fh)"
        unfolding res fst_conv foot.simps option.case c2 using rn r1 r2 by auto
      have nf: "next_free ?h2 = next_free h1" by simp
      show ?thesis unfolding e ft nf using h1(3) by blast
    qed
    moreover have "?N \<le> next_free ?h2" using h1(4) by simp
    moreover have "\<forall>b. b < ?N \<longrightarrow> b \<notin> foot (cells h) p ?t \<longrightarrow> cells ?h2 b = cells h b"
      unfolding ft using h1(5) by simp
    ultimately show ?thesis by blast
  next
    case self
    let ?h2 = "h\<lparr>cells := (cells h)(a \<mapsto> n\<lparr>h_pdata := Some v\<rparr>)\<rparr>"
    have res: "insert_aux ?t ?s v sz pos =
        (Node ch lo hi eq (Some v), (if pd \<noteq> None then sz else sz + 1), Some v)"
      using self by simp
    have rl: "rep (cells ?h2) ?pl lo \<and> foot (cells ?h2) ?pl lo = ?Fl"
      using d by (intro rep_frame[OF r(1)]) auto
    have rh: "rep (cells ?h2) ?ph hi \<and> foot (cells ?h2) ?ph hi = ?Fh"
      using d by (intro rep_frame[OF r(2)]) auto
    have re: "rep (cells ?h2) ?pe eq \<and> foot (cells ?h2) ?pe eq = ?Fe"
      using d by (intro rep_frame[OF r(3)]) auto
    have c2: "cells ?h2 a = Some (n\<lparr>h_pdata := Some v\<rparr>)" by simp
    have "h_insert_aux h p ?s v sz pos = Some (?h2, Some a, snd (insert_aux ?t ?s v sz pos))"
      using self unfolding res
      by (subst h_insert_aux.simps) (simp add: p n f h_store_Some[OF n])
    moreover have "rep (cells ?h2) (Some a) (fst (insert_aux ?t ?s v sz pos))"
      unfolding res fst_conv rep.simps option.case c2
      using rl rh re d f by simp
    moreover have "foot (cells ?h2) (Some a) (fst (insert_aux ?t ?s v sz pos))
        \<subseteq> foot (cells h) p ?t \<union> {?N..<next_free ?h2}"
    proof -
      have e: "foot (cells ?h2) (Some a) (fst (insert_aux ?t ?s v sz pos)) =
          insert a (?Fl \<union> ?Fh \<union> ?Fe)"
        unfolding res fst_conv foot.simps option.case c2 using rl rh re by simp
      show ?thesis unfolding e ft by blast
    qed
    moreover have "?N \<le> next_free ?h2" by simp
    moreover have "\<forall>b. b < ?N \<longrightarrow> b \<notin> foot (cells h) p ?t \<longrightarrow> cells ?h2 b = cells h b"
      unfolding ft by simp
    ultimately show ?thesis by blast
  qed
qed

lemma hm_find_refines: "hrep h m t \<Longrightarrow> hm_find h m k = Some (find_tst t k)"
  by (simp add: hrep_def hm_find_def find_tst_def h_find_refines)

lemma hm_insert_refines:
  assumes "hrep h m t"
  shows "\<exists>h' m'. hm_insert h m k v = Some (h', m', snd (insert_tst t k v)) \<and>
     hrep h' m' (fst (insert_tst t k v)) \<and>
     foot (cells h') (hm_root m') (root_m (fst (insert_tst t k v)))
       \<subseteq> foot (cells h) (hm_root m) (root_m t) \<union> {next_free h..<next_free h'} \<and>
     next_free h \<le> next_free h' \<and>
     (\<forall>b. b < next_free h \<longrightarrow> b \<notin> foot (cells h) (hm_root m) (root_m t) \<longrightarrow>
        cells h' b = cells h b)"
proof -
  let ?r = "insert_aux (root_m t) (c_str k) v (size_m t) None"
  from assms have r: "rep (cells h) (hm_root m) (root_m t)"
    and s: "hm_size m = size_m t"
    and b: "foot (cells h) (hm_root m) (root_m t) \<subseteq> {..<next_free h}"
    by (simp_all add: hrep_def)
  from h_insert_refines[OF r b, of "c_str k" v "size_m t" None] obtain h' p' where
    h': "h_insert_aux h (hm_root m) (c_str k) v (size_m t) None = Some (h', p', snd ?r)"
      "rep (cells h') p' (fst ?r)"
      "foot (cells h') p' (fst ?r)
         \<subseteq> foot (cells h) (hm_root m) (root_m t) \<union> {next_free h..<next_free h'}"
      "next_free h \<le> next_free h'"
      "\<forall>b. b < next_free h \<longrightarrow> b \<notin> foot (cells h) (hm_root m) (root_m t) \<longrightarrow>
         cells h' b = cells h b"
    by blast
  let ?m' = "\<lparr>hm_root = p', hm_size = fst (snd ?r)\<rparr>"
  have t': "root_m (fst (insert_tst t k v)) = fst ?r" "size_m (fst (insert_tst t k v)) = fst (snd ?r)"
    "snd (insert_tst t k v) = snd (snd ?r)"
    by (simp_all add: insert_tst_def case_prod_beta)
  have "hm_insert h m k v = Some (h', ?m', snd (insert_tst t k v))"
    using h'(1) by (simp add: hm_insert_def s t' case_prod_beta)
  moreover have "foot (cells h') p' (fst ?r) \<subseteq> {..<next_free h'}"
  proof
    fix x assume "x \<in> foot (cells h') p' (fst ?r)"
    with h'(3) have "x \<in> foot (cells h) (hm_root m) (root_m t) \<or> x < next_free h'" by auto
    with b h'(4) show "x \<in> {..<next_free h'}" by auto
  qed
  then have "hrep h' ?m' (fst (insert_tst t k v))"
    using h'(2) by (simp add: hrep_def t')
  moreover have "foot (cells h') (hm_root ?m') (root_m (fst (insert_tst t k v)))
      \<subseteq> foot (cells h) (hm_root m) (root_m t) \<union> {next_free h..<next_free h'}"
    using h'(3) by (simp add: t')
  ultimately show ?thesis using h'(4,5) by blast
qed

lemma hm_remove_refines:
  assumes "hrep h m t"
  shows "\<exists>h' m'. hm_remove h m k = Some (h', m', snd (remove t k)) \<and>
     hrep h' m' (fst (remove t k)) \<and>
     foot (cells h') (hm_root m') (root_m (fst (remove t k)))
       = foot (cells h) (hm_root m) (root_m t) \<and>
     next_free h' = next_free h \<and>
     (\<forall>b. b \<notin> foot (cells h) (hm_root m) (root_m t) \<longrightarrow> cells h' b = cells h b)"
proof -
  let ?r = "remove_loop (root_m t) (c_str k) (size_m t)"
  from assms have r: "rep (cells h) (hm_root m) (root_m t)"
    and s: "hm_size m = size_m t"
    and b: "foot (cells h) (hm_root m) (root_m t) \<subseteq> {..<next_free h}"
    by (simp_all add: hrep_def)
  from h_remove_refines[OF r, of "c_str k" "size_m t"] obtain h' where
    h': "h_remove_loop h (hm_root m) (c_str k) (size_m t) = Some (h', snd ?r)"
      "rep (cells h') (hm_root m) (fst ?r)"
      "foot (cells h') (hm_root m) (fst ?r) = foot (cells h) (hm_root m) (root_m t)"
      "next_free h' = next_free h"
      "\<forall>b. b \<notin> foot (cells h) (hm_root m) (root_m t) \<longrightarrow> cells h' b = cells h b"
    by blast
  let ?m' = "m\<lparr>hm_size := fst (snd ?r)\<rparr>"
  have t': "root_m (fst (remove t k)) = fst ?r" "size_m (fst (remove t k)) = fst (snd ?r)"
    "snd (remove t k) = snd (snd ?r)"
    by (simp_all add: remove_def case_prod_beta)
  have "hm_remove h m k = Some (h', ?m', snd (remove t k))"
    using h'(1) by (simp add: hm_remove_def s t' case_prod_beta)
  moreover have "hrep h' ?m' (fst (remove t k))"
    using h'(2,3,4) b by (simp add: hrep_def t')
  moreover have "foot (cells h') (hm_root ?m') (root_m (fst (remove t k)))
      = foot (cells h) (hm_root m) (root_m t)"
    using h'(3) by (simp add: t')
  ultimately show ?thesis using h'(4,5) by blast
qed

lemma away_insert:
  assumes "away S h m t"
  shows "\<exists>h' m'. hm_insert h m k v = Some (h', m', snd (insert_tst t k v)) \<and>
     away S h' m' (fst (insert_tst t k v)) \<and> (\<forall>b\<in>S. cells h' b = cells h b)"
proof -
  let ?F = "foot (cells h) (hm_root m) (root_m t)"
  from assms have r: "hrep h m t" and d: "?F \<inter> S = {}" and b: "S \<subseteq> {..<next_free h}"
    by (simp_all add: away_def)
  from hm_insert_refines[OF r, of k v] obtain h' m' where
    h': "hm_insert h m k v = Some (h', m', snd (insert_tst t k v))"
      "hrep h' m' (fst (insert_tst t k v))"
      "foot (cells h') (hm_root m') (root_m (fst (insert_tst t k v)))
         \<subseteq> ?F \<union> {next_free h..<next_free h'}"
      "next_free h \<le> next_free h'"
      "\<forall>b. b < next_free h \<longrightarrow> b \<notin> ?F \<longrightarrow> cells h' b = cells h b"
    by blast
  have in_S: "x < next_free h \<and> x \<notin> ?F" if "x \<in> S" for x
    using that b d by blast
  have "foot (cells h') (hm_root m') (root_m (fst (insert_tst t k v))) \<inter> S = {}"
  proof (rule ccontr)
    assume "foot (cells h') (hm_root m') (root_m (fst (insert_tst t k v))) \<inter> S \<noteq> {}"
    then obtain x where x: "x \<in> foot (cells h') (hm_root m') (root_m (fst (insert_tst t k v)))"
      and xs: "x \<in> S" by blast
    from subsetD[OF h'(3) x] have "x \<in> ?F \<or> next_free h \<le> x" by auto
    with in_S[OF xs] show False by simp
  qed
  moreover have "S \<subseteq> {..<next_free h'}" using b h'(4) by auto
  ultimately have "away S h' m' (fst (insert_tst t k v))"
    using h'(2) by (simp add: away_def)
  moreover have "\<forall>b\<in>S. cells h' b = cells h b" using in_S h'(5) by blast
  ultimately show ?thesis using h'(1) by blast
qed

lemma away_remove:
  assumes "away S h m t"
  shows "\<exists>h' m'. hm_remove h m k = Some (h', m', snd (remove t k)) \<and>
     away S h' m' (fst (remove t k)) \<and> (\<forall>b\<in>S. cells h' b = cells h b)"
proof -
  let ?F = "foot (cells h) (hm_root m) (root_m t)"
  from assms have r: "hrep h m t" and d: "?F \<inter> S = {}" and b: "S \<subseteq> {..<next_free h}"
    by (simp_all add: away_def)
  from hm_remove_refines[OF r, of k] obtain h' m' where
    h': "hm_remove h m k = Some (h', m', snd (remove t k))"
      "hrep h' m' (fst (remove t k))"
      "foot (cells h') (hm_root m') (root_m (fst (remove t k))) = ?F"
      "next_free h' = next_free h"
      "\<forall>b. b \<notin> ?F \<longrightarrow> cells h' b = cells h b"
    by blast
  have "away S h' m' (fst (remove t k))"
    using h'(2,3,4) d b by (simp add: away_def)
  moreover have "\<forall>b\<in>S. cells h' b = cells h b" using d h'(5) by blast
  ultimately show ?thesis using h'(1) by blast
qed

lemma away_helper:
  assumes "away S h m t"
  shows "\<exists>h' m'. hm_insert_helper k v (h, m) = Some (h', m') \<and>
     away S h' m' (insert_helper k v t) \<and> (\<forall>b\<in>S. cells h' b = cells h b)"
proof -
  from away_insert[OF assms, of k v] obtain h' m' where
    "hm_insert h m k v = Some (h', m', snd (insert_tst t k v))"
    "away S h' m' (fst (insert_tst t k v))" "\<forall>b\<in>S. cells h' b = cells h b"
    by blast
  then show ?thesis by (simp add: hm_insert_helper_def insert_helper_def)
qed

lemma away_mutate:
  "away S h m t \<Longrightarrow>
   \<exists>h' m'. hm_mutate h m ms = Some (h', m') \<and> away S h' m' (mutate t ms) \<and>
     (\<forall>b\<in>S. cells h' b = cells h b)"
proof (induction ms arbitrary: h m t)
  case Nil
  then show ?case by simp
next
  case (Cons x ms)
  show ?case
  proof (cases x)
    case (Insert k v)
    from away_insert[OF Cons.prems, of k v] obtain h1 m1 where
      s: "hm_insert h m k v = Some (h1, m1, snd (insert_tst t k v))"
        "away S h1 m1 (fst (insert_tst t k v))" "\<forall>b\<in>S. cells h1 b = cells h b"
      by blast
    from Cons.IH[OF s(2)] obtain h' m' where
      "hm_mutate h1 m1 ms = Some (h', m')" "away S h' m' (mutate (fst (insert_tst t k v)) ms)"
      "\<forall>b\<in>S. cells h' b = cells h1 b"
      by blast
    with s show ?thesis by (simp add: Insert)
  next
    case (Remove k)
    from away_remove[OF Cons.prems, of k] obtain h1 m1 where
      s: "hm_remove h m k = Some (h1, m1, snd (remove t k))"
        "away S h1 m1 (fst (remove t k))" "\<forall>b\<in>S. cells h1 b = cells h b"
      by blast
    from Cons.IH[OF s(2)] obtain h' m' where
      "hm_mutate h1 m1 ms = Some (h', m')" "away S h' m' (mutate (fst (remove t k)) ms)"
      "\<forall>b\<in>S. cells h' b = cells h1 b"
      by blast
    with s show ?thesis by (simp add: Remove)
  qed
qed

lemma h_travel_refines:
  "rep (cells h) p t \<Longrightarrow> foot (cells h) p t \<subseteq> S \<Longrightarrow> away S h m tm \<Longrightarrow>
   \<exists>h' m'. h_travel p cur hm_insert_helper (h, m) = Some (h', m') \<and>
     away S h' m' (travel t cur insert_helper tm) \<and> (\<forall>b\<in>S. cells h' b = cells h b)"
proof (induction t arbitrary: p cur h m tm)
  case Null
  then show ?case by (subst h_travel.simps) simp
next
  case (Node ch lo hi eq pd)
  from Node.prems(1) obtain a n where p: "p = Some a" and n: "cells h a = Some n"
    by (auto split: option.splits)
  let ?pl = "h_lokid n" and ?ph = "h_hikid n" and ?pe = "h_eqkid n"
  from Node.prems(1) p n have r: "rep (cells h) ?pl lo" "rep (cells h) ?ph hi" "rep (cells h) ?pe eq"
    and f: "h_splitchar n = ch" "h_pdata n = pd"
    by simp_all
  from Node.prems(2) p n have s: "a \<in> S" "foot (cells h) ?pl lo \<subseteq> S"
    "foot (cells h) ?ph hi \<subseteq> S" "foot (cells h) ?pe eq \<subseteq> S"
    by simp_all
  let ?t1 = "travel lo cur insert_helper tm"
  let ?t2 = "travel eq (cur @ [ch]) insert_helper ?t1"
  let ?t3 = "travel hi cur insert_helper ?t2"
  from Node.IH(1)[OF r(1) s(2) Node.prems(3), of cur] obtain h1 m1 where
    1: "h_travel ?pl cur hm_insert_helper (h, m) = Some (h1, m1)" "away S h1 m1 ?t1"
      "\<forall>b\<in>S. cells h1 b = cells h b"
    by blast
  have n1: "cells h1 a = Some n" using 1(3) s(1) n by simp
  have re: "rep (cells h1) ?pe eq \<and> foot (cells h1) ?pe eq = foot (cells h) ?pe eq"
    using 1(3) s(4) by (intro rep_frame[OF r(3)]) blast
  from re s(4) have re1: "rep (cells h1) ?pe eq" and re2: "foot (cells h1) ?pe eq \<subseteq> S"
    by simp_all
  from Node.IH(3)[OF re1 re2 1(2), of "cur @ [ch]"] obtain h2 m2 where
    2: "h_travel ?pe (cur @ [ch]) hm_insert_helper (h1, m1) = Some (h2, m2)" "away S h2 m2 ?t2"
      "\<forall>b\<in>S. cells h2 b = cells h1 b"
    by blast
  have n2: "cells h2 a = Some n" using 2(3) s(1) n1 by simp
  have rh: "rep (cells h2) ?ph hi \<and> foot (cells h2) ?ph hi = foot (cells h) ?ph hi"
    using 1(3) 2(3) s(3) by (intro rep_frame[OF r(2)]) (simp add: subset_iff)
  from rh s(3) have rh1: "rep (cells h2) ?ph hi" and rh2: "foot (cells h2) ?ph hi \<subseteq> S"
    by simp_all
  from Node.IH(2)[OF rh1 rh2 2(2), of cur] obtain h3 m3 where
    3: "h_travel ?ph cur hm_insert_helper (h2, m2) = Some (h3, m3)" "away S h3 m3 ?t3"
      "\<forall>b\<in>S. cells h3 b = cells h2 b"
    by blast
  have n3: "cells h3 a = Some n" using 3(3) s(1) n2 by simp
  have fr3: "\<forall>b\<in>S. cells h3 b = cells h b" using 1(3) 2(3) 3(3) by simp
  have tr: "travel (Node ch lo hi eq pd) cur insert_helper tm =
      (case pd of Some v \<Rightarrow> insert_helper (cur @ [ch]) v ?t3 | None \<Rightarrow> ?t3)"
    by (simp add: Let_def)
  have ht: "h_travel p cur hm_insert_helper (h, m) =
      (case pd of Some v \<Rightarrow> hm_insert_helper (cur @ [ch]) v (h3, m3) | None \<Rightarrow> Some (h3, m3))"
    by (subst h_travel.simps) (simp add: p n 1(1) n1 2(1) n2 3(1) n3 f cong: option.case_cong)
  show ?case
  proof (cases pd)
    case None
    with 3(2) fr3 show ?thesis unfolding tr ht by auto
  next
    case (Some v)
    from away_helper[OF 3(2), of "cur @ [ch]" v] obtain h4 m4 where
      4: "hm_insert_helper (cur @ [ch]) v (h3, m3) = Some (h4, m4)"
        "away S h4 m4 (insert_helper (cur @ [ch]) v ?t3)" "\<forall>b\<in>S. cells h4 b = cells h3 b"
      by blast
    from 4(3) fr3 have "\<forall>b\<in>S. cells h4 b = cells h b" by simp
    with 4(1,2) show ?thesis unfolding tr ht Some by auto
  qed
qed

lemma hm_copy_refines:
  assumes "hrep h m t"
  shows "\<exists>h' m'. hm_copy h m = Some (h', m') \<and> hrep h' m (t::'v tst_map) \<and>
     away (foot (cells h) (hm_root m) (root_m t)) h' m' (tst_map_copy t) \<and>
     (\<forall>b\<in>foot (cells h) (hm_root m) (root_m t). cells h' b = cells h b)"
proof -
  let ?S = "foot (cells h) (hm_root m) (root_m t)"
  from assms have r: "rep (cells h) (hm_root m) (root_m t)" and b: "?S \<subseteq> {..<next_free h}"
    and sz: "hm_size m = size_m t"
    by (simp_all add: hrep_def)
  have a0: "away ?S h hm_new (tst_map_new::'v tst_map)"
    using b by (simp add: away_def hrep_def hm_new_def tst_map_new_def)
  from h_travel_refines[OF r subset_refl a0, of "[]"] obtain h' m' where
    c: "h_travel (hm_root m) [] hm_insert_helper (h, hm_new) = Some (h', m')"
      "away ?S h' m' (travel (root_m t) [] insert_helper tst_map_new)"
      "\<forall>b\<in>?S. cells h' b = cells h b"
    by blast
  from c(2) have b': "?S \<subseteq> {..<next_free h'}" by (simp add: away_def)
  have "rep (cells h') (hm_root m) (root_m t) \<and> foot (cells h') (hm_root m) (root_m t) = ?S"
    using c(3) by (intro rep_frame[OF r]) blast
  with b' sz have "hrep h' m t" by (simp add: hrep_def)
  with c show ?thesis by (auto simp: hm_copy_def tst_map_copy_def foreach_def)
qed

lemma invar_mutate: "invar t \<Longrightarrow> invar (mutate t ms)"
proof (induction ms arbitrary: t)
  case Nil
  then show ?case by simp
next
  case (Cons x ms)
  then show ?case by (cases x) (simp_all add: invar_insert invar_remove)
qed

lemma hm_mutate_new:
  "\<exists>h A. hm_mutate heap_new hm_new ms = Some (h, A) \<and>
     hrep h A (mutate tst_map_new ms) \<and> invar (mutate tst_map_new ms)"
proof -
  have "away {} heap_new hm_new (tst_map_new::'a tst_map)"
    by (simp add: away_def hrep_def heap_new_def hm_new_def tst_map_new_def)
  from away_mutate[OF this, of ms] show ?thesis
    by (auto simp: away_def invar_mutate invar_new)
qed

subsection \<open>Copies are independent\<close>

text \<open>
  Claim C9, on the store. A container \<open>A\<close> whose nodes lie in the heap \<open>h\<close> and represent
  the tree \<open>t\<close> of a container state: the copy constructor returns, and yields a heap and a
  container \<open>B\<close> with the size of \<open>A\<close> in which \<^verbatim>\<open>find\<close> returns for every key what it
  returns in \<open>A\<close>; and every sequence of \<^verbatim>\<open>insert\<close> and \<^verbatim>\<open>remove\<close> on \<open>B\<close> returns and
  leaves the nodes of \<open>A\<close> representing \<open>t\<close>, so that \<^verbatim>\<open>find\<close> on \<open>A\<close> returns for every key
  what it returned before the copy. (The members \<^verbatim>\<open>root_\<close> and \<^verbatim>\<open>size_\<close> of \<open>A\<close> are
  the value \<open>A\<close>, which no operation on \<open>B\<close> receives.)
\<close>

theorem copy_independent:
  assumes "hrep h A t" and "invar t"
  shows "\<exists>h1 B. hm_copy h A = Some (h1, B) \<and>
           hm_size B = hm_size A \<and>
           (\<forall>k. hm_find h1 B k = hm_find h A k) \<and>
           (\<forall>ms. \<exists>h2 B2. hm_mutate h1 B ms = Some (h2, B2) \<and>
                   hrep h2 A t \<and> (\<forall>k. hm_find h2 A k = hm_find h A k))"
proof -
  let ?S = "foot (cells h) (hm_root A) (root_m t)"
  from hm_copy_refines[OF assms(1)] obtain h1 B where
    c: "hm_copy h A = Some (h1, B)" "hrep h1 A t" "away ?S h1 B (tst_map_copy t)"
      "\<forall>b\<in>?S. cells h1 b = cells h b"
    by blast
  from c(3) have rb: "hrep h1 B (tst_map_copy t)" by (simp add: away_def)
  from assms(1) have r: "rep (cells h) (hm_root A) (root_m t)" by (simp add: hrep_def)
  have "hm_size B = size_m (tst_map_copy t)" using rb by (simp add: hrep_def)
  also have "\<dots> = size_m t" by (rule copy_same(2)[OF assms(2)])
  also have "\<dots> = hm_size A" using assms(1) by (simp add: hrep_def)
  finally have sz: "hm_size B = hm_size A" .
  have fb: "hm_find h1 B k = hm_find h A k" for k
    by (simp add: hm_find_refines[OF rb] hm_find_refines[OF assms(1)] copy_same(1)[OF assms(2)])
  have mu: "\<exists>h2 B2. hm_mutate h1 B ms = Some (h2, B2) \<and>
      hrep h2 A t \<and> (\<forall>k. hm_find h2 A k = hm_find h A k)" for ms
  proof -
    from away_mutate[OF c(3), of ms] obtain h2 B2 where
      m: "hm_mutate h1 B ms = Some (h2, B2)" "away ?S h2 B2 (mutate (tst_map_copy t) ms)"
        "\<forall>b\<in>?S. cells h2 b = cells h1 b"
      by blast
    from m(3) c(4) have fr: "\<forall>b\<in>?S. cells h2 b = cells h b" by simp
    have "rep (cells h2) (hm_root A) (root_m t) \<and> foot (cells h2) (hm_root A) (root_m t) = ?S"
      using fr by (intro rep_frame[OF r]) blast
    moreover from m(2) have "?S \<subseteq> {..<next_free h2}" by (simp add: away_def)
    ultimately have ra: "hrep h2 A t" using assms(1) by (simp add: hrep_def)
    then have "hm_find h2 A k = hm_find h A k" for k
      by (simp add: hm_find_refines[OF ra] hm_find_refines[OF assms(1)])
    with m(1) ra show ?thesis by blast
  qed
  from c(1) sz fb mu show ?thesis by blast
qed

theorem copy_independent_witness:
  "hm_mutate heap_new hm_new [Insert ''a'' (1::nat), Insert ''b'' 2] =
     Some (\<lparr>cells = [0 \<mapsto> \<lparr>h_splitchar = CHR ''a'', h_lokid = None, h_hikid = Some 1,
                                h_eqkid = None, h_pdata = Some 1\<rparr>,
                          1 \<mapsto> \<lparr>h_splitchar = CHR ''b'', h_lokid = None, h_hikid = None,
                                h_eqkid = None, h_pdata = Some 2\<rparr>],
               next_free = 2\<rparr>,
           \<lparr>hm_root = Some 0, hm_size = 2\<rparr>) \<and>
   hrep \<lparr>cells = [0 \<mapsto> \<lparr>h_splitchar = CHR ''a'', h_lokid = None, h_hikid = Some 1,
                          h_eqkid = None, h_pdata = Some (1::nat)\<rparr>,
                    1 \<mapsto> \<lparr>h_splitchar = CHR ''b'', h_lokid = None, h_hikid = None,
                          h_eqkid = None, h_pdata = Some 2\<rparr>],
         next_free = 2\<rparr>
     \<lparr>hm_root = Some 0, hm_size = 2\<rparr>
     (inserts [(''a'', 1), (''b'', 2)] tst_map_new) \<and>
   invar (inserts [(''a'', 1::nat), (''b'', 2)] tst_map_new) \<and>
   (\<exists>h1 B.
      hm_copy \<lparr>cells = [0 \<mapsto> \<lparr>h_splitchar = CHR ''a'', h_lokid = None, h_hikid = Some 1,
                                h_eqkid = None, h_pdata = Some (1::nat)\<rparr>,
                          1 \<mapsto> \<lparr>h_splitchar = CHR ''b'', h_lokid = None, h_hikid = None,
                                h_eqkid = None, h_pdata = Some 2\<rparr>],
               next_free = 2\<rparr>
        \<lparr>hm_root = Some 0, hm_size = 2\<rparr> = Some (h1, B) \<and>
      hm_size B = 2 \<and>
      (\<exists>h2 B2. hm_mutate h1 B [Remove ''a'', Insert ''c'' 5] = Some (h2, B2) \<and>
         hm_find h2 \<lparr>hm_root = Some 0, hm_size = 2\<rparr> ''a'' = Some (Some 1)))"
proof -
  let ?h = "\<lparr>cells = [0 \<mapsto> \<lparr>h_splitchar = CHR ''a'', h_lokid = None, h_hikid = Some 1,
                          h_eqkid = None, h_pdata = Some (1::nat)\<rparr>,
                    1 \<mapsto> \<lparr>h_splitchar = CHR ''b'', h_lokid = None, h_hikid = None,
                          h_eqkid = None, h_pdata = Some 2\<rparr>],
         next_free = 2\<rparr>"
  let ?A = "\<lparr>hm_root = Some 0, hm_size = 2\<rparr>"
  let ?t = "inserts [(''a'', 1::nat), (''b'', 2)] tst_map_new"
  have b: "hm_mutate heap_new hm_new [Insert ''a'' (1::nat), Insert ''b'' 2] = Some (?h, ?A)"
    by (simp add: hm_insert_def h_insert_aux.simps h_new_tnode_def h_store_def heap_new_def
        hm_new_def NUL_def fun_upd_twist)
  have r: "hrep ?h ?A ?t"
    by (simp add: hrep_def insert_tst_def tst_map_new_def NUL_def)
  have i: "invar ?t" by (simp add: invar_insert invar_new)
  have f: "hm_find ?h ?A ''a'' = Some (Some 1)"
    unfolding hm_find_refines[OF r]
    by (simp add: find_tst_def insert_tst_def tst_map_new_def NUL_def)
  from copy_independent[OF r i] obtain h1 B where
    c: "hm_copy ?h ?A = Some (h1, B)" "hm_size B = hm_size ?A"
      "\<forall>ms. \<exists>h2 B2. hm_mutate h1 B ms = Some (h2, B2) \<and>
         hrep h2 ?A ?t \<and> (\<forall>k. hm_find h2 ?A k = hm_find ?h ?A k)"
    by blast
  from c(3) obtain h2 B2 where
    "hm_mutate h1 B [Remove ''a'', Insert ''c'' 5] = Some (h2, B2)"
    "hm_find h2 ?A ''a'' = hm_find ?h ?A ''a''"
    by blast
  with c(1,2) f
  have "\<exists>h1 B. hm_copy ?h ?A = Some (h1, B) \<and> hm_size B = 2 \<and>
      (\<exists>h2 B2. hm_mutate h1 B [Remove ''a'', Insert ''c'' 5] = Some (h2, B2) \<and>
         hm_find h2 ?A ''a'' = Some (Some 1))"
    by auto
  with b r i show ?thesis by blast
qed

end
